theory Spec2Isabelle
  imports Main
begin

section \<open>The lifecycle core of src/index.ts\<close>

text \<open>
  The module keeps its state in module-level constants: \<open>controllerRegistry\<close> (a Map in
  insertion order), \<open>controllerInstances\<close>, \<open>loadOrderMap\<close>, \<open>registeringControllers\<close>
  and the flag \<open>started\<close>. The state is passed explicitly here; every function returns
  the state it leaves behind, also when it throws.

  A controller class is an opaque identity \<open>'c\<close>. What the library reads from a class
  (its name, the \<open>design:paramtypes\<close> metadata, the constructor, the methods marked by
  \<open>@OnInit\<close> and \<open>@OnStart\<close>) is user code and is a parameter of the model, the record
  \<open>classes\<close>. Constructors and hooks may look at the lifecycle state (this is what a hook
  calling \<open>Dependency\<close> does) and may throw; they do not change the registries.
  Load-order hints are integers.
\<close>

subsection \<open>Data\<close>

datatype 'e error =
    Error string  \<comment> \<open>\<open>new Error(message)\<close> made by the library\<close>
  | TypeError     \<comment> \<open>a method read on \<open>undefined\<close>\<close>
  | Thrown 'e     \<comment> \<open>whatever a constructor or a hook of the user throws\<close>

definition AppLifeError :: "string \<Rightarrow> 'e error" where
  "AppLifeError message = Error (''[AppLife]: '' @ message)"

datatype 'c obj = Instance 'c "'c obj list"
  \<comment> \<open>\<open>new ControllerClass(...dependencies)\<close>\<close>

datatype log_type = Warn | Log | Err

text \<open>
  \<open>Console\<close> is a line written by \<open>DebugLog\<close>. The other events are observation points
  that the source passes without writing anything: the construction step (line 112), the
  call of the init hook (line 122), the store into \<open>controllerInstances\<close> (line 129) and
  the call of a start hook (line 190).
\<close>

datatype ('c, 'e) event =
    Console log_type string "'e error option" "'c obj option"
  | Construct 'c
  | Init 'c
  | Stored 'c
  | StartHook 'c

record options =
  loadOrder :: "int option"

record ('c, 'e) state =
  controllerRegistry :: "('c \<times> options) list"
  controllerInstances :: "'c \<rightharpoonup> 'c obj"
  loadOrderMap :: "'c \<rightharpoonup> int"
  registeringControllers :: "'c set"
  started :: bool
  events :: "('c, 'e) event list"

record ('c, 'e) classes =
  className :: "'c \<Rightarrow> string"
  paramtypes :: "'c \<Rightarrow> 'c list option"
  construct :: "'c \<Rightarrow> 'c obj list \<Rightarrow> ('c, 'e) state \<Rightarrow> 'e option"
  onInitMethod :: "'c \<Rightarrow> ('c obj \<Rightarrow> ('c, 'e) state \<Rightarrow> 'e option) option"
  onStartMethod :: "'c \<Rightarrow> ('c obj \<Rightarrow> ('c, 'e) state \<Rightarrow> 'e option) option"

definition initial :: "('c, 'e) state" where
  "initial = \<lparr>controllerRegistry = [], controllerInstances = Map.empty,
     loadOrderMap = Map.empty, registeringControllers = {}, started = False, events = []\<rparr>"

subsection \<open>Helpers\<close>

definition observe :: "('c, 'e) event \<Rightarrow> ('c, 'e) state \<Rightarrow> ('c, 'e) state" where
  "observe ev st = st\<lparr>events := events st @ [ev]\<rparr>"

definition DebugLog ::
  "log_type \<Rightarrow> string \<Rightarrow> 'e error option \<Rightarrow> 'c obj option \<Rightarrow> ('c, 'e) state \<Rightarrow> ('c, 'e) state" where
  "DebugLog type msg err inst st = observe (Console type msg err inst) st"

definition registered :: "('c, 'e) state \<Rightarrow> 'c list" where
  \<comment> \<open>the keys of \<open>controllerRegistry\<close>, in insertion order\<close>
  "registered st = map fst (controllerRegistry st)"

definition registryHas :: "('c, 'e) state \<Rightarrow> 'c \<Rightarrow> bool" where
  "registryHas st c = (c \<in> set (registered st))"

definition dependenciesOf :: "('c, 'e) classes \<Rightarrow> 'c \<Rightarrow> 'c list" where
  \<comment> \<open>\<open>Reflect.getMetadata("design:paramtypes", ControllerClass) ?? []\<close>\<close>
  "dependenciesOf env c = (case paramtypes env c of None \<Rightarrow> [] | Some ps \<Rightarrow> ps)"

subsection \<open>The decorator \<open>Controller\<close>\<close>

definition Controller ::
  "options \<Rightarrow> 'c \<Rightarrow> ('c, 'e) state \<Rightarrow> ('e error + unit) \<times> ('c, 'e) state" where
  "Controller opts target st =
     (if registryHas st target
      then (Inl (AppLifeError ''Controller already registered''), st)
      else (Inr (),
            st\<lparr>controllerRegistry := controllerRegistry st @ [(target, opts)],
               loadOrderMap := (loadOrderMap st)(target \<mapsto>
                 (case loadOrder opts of None \<Rightarrow> 0 | Some n \<Rightarrow> n))\<rparr>))"

subsection \<open>\<open>registerController\<close>\<close>

definition mark :: "'c \<Rightarrow> ('c, 'e) state \<Rightarrow> ('c, 'e) state" where
  \<comment> \<open>\<open>registeringControllers.add(ControllerClass)\<close>, line 92\<close>
  "mark c st = st\<lparr>registeringControllers := insert c (registeringControllers st)\<rparr>"

text \<open>Lines 109 to 131: construction, the init hook, the store.\<close>

definition createInstance ::
  "('c, 'e) classes \<Rightarrow> ('c, 'e) state \<Rightarrow> 'c \<Rightarrow> 'c obj list
     \<Rightarrow> ('e error + 'c obj) \<times> ('c, 'e) state" where
  "createInstance env st c dependencies =
     (let st1 = observe (Construct c) st in
      case construct env c dependencies st1 of
        Some e \<Rightarrow>
          (Inl (Thrown e), DebugLog Err ''Error in constructor:'' (Some (Thrown e)) None st1)
      | None \<Rightarrow>
          (let inst = Instance c dependencies;
               stored = (\<lambda>s. (Inr inst,
                  observe (Stored c) s\<lparr>controllerInstances := (controllerInstances s)(c \<mapsto> inst),
                     registeringControllers := registeringControllers s - {c}\<rparr>))
           in case onInitMethod env c of
                None \<Rightarrow> stored st1
              | Some hook \<Rightarrow>
                  (let st2 = observe (Init c) st1 in
                   case hook inst st2 of
                     Some e \<Rightarrow>
                       (Inl (Thrown e),
                        DebugLog Err ''Error in OnInit:'' (Some (Thrown e)) None st2)
                   | None \<Rightarrow> stored st2)))"

text \<open>
  The function is recursive through the loop over the parameter types. The first argument
  after the classes bounds the depth of the recursion; \<open>None\<close> means the bound was too
  small, and \<open>Start\<close> below is shown to pass a bound that is never exhausted.
  \<open>resolveDependencies\<close> is the loop of lines 99 to 107, with the array \<open>dependencies\<close>
  as accumulator.
\<close>

fun registerController ::
  "('c, 'e) classes \<Rightarrow> nat \<Rightarrow> ('c, 'e) state \<Rightarrow> 'c
     \<Rightarrow> (('e error + 'c obj) \<times> ('c, 'e) state) option"
and resolveDependencies ::
  "('c, 'e) classes \<Rightarrow> nat \<Rightarrow> ('c, 'e) state \<Rightarrow> 'c list \<Rightarrow> 'c obj list
     \<Rightarrow> (('e error + 'c obj list) \<times> ('c, 'e) state) option"
where
  "registerController env 0 st c = None"
| "registerController env (Suc n) st c =
     (case controllerInstances st c of
        Some inst \<Rightarrow> Some (Inr inst, st)
      | None \<Rightarrow>
          if c \<in> registeringControllers st
          then Some (Inl (AppLifeError ''Cyclic dependency detected''), st)
          else (case resolveDependencies env n (mark c st) (dependenciesOf env c) [] of
                  None \<Rightarrow> None
                | Some (Inl e, st1) \<Rightarrow> Some (Inl e, st1)
                | Some (Inr dependencies, st1) \<Rightarrow> Some (createInstance env st1 c dependencies)))"
| "resolveDependencies env n st [] dependencies = Some (Inr dependencies, st)"
| "resolveDependencies env n st (dep # rest) dependencies =
     (if \<not> registryHas st dep
      then Some (Inl (AppLifeError
             (''Dependency '' @ className env dep @ '' not registered via @Controller'')), st)
      else (case registerController env n st dep of
              None \<Rightarrow> None
            | Some (Inl e, st1) \<Rightarrow> Some (Inl e, st1)
            | Some (Inr depInstance, st1) \<Rightarrow>
                resolveDependencies env n st1 rest (dependencies @ [depInstance])))"

subsection \<open>\<open>Dependency\<close>\<close>

definition Dependency ::
  "('c, 'e) state \<Rightarrow> 'c \<Rightarrow> ('e error + 'c obj) \<times> ('c, 'e) state" where
  "Dependency st controllerClass =
     (if \<not> started st
      then (Inl (AppLifeError ''Use Dependency after AppLife.Start()''), st)
      else (case controllerInstances st controllerClass of
              None \<Rightarrow> (Inl (AppLifeError ''Controller not registered or not loaded yet''), st)
            | Some inst \<Rightarrow> (Inr inst, st)))"

subsection \<open>\<open>AppLife.Start\<close>\<close>

definition loadOrderOf :: "('c, 'e) state \<Rightarrow> 'c \<Rightarrow> int" where
  \<comment> \<open>\<open>loadOrderMap.get(c) ?? 0\<close>\<close>
  "loadOrderOf st c = (case loadOrderMap st c of None \<Rightarrow> 0 | Some n \<Rightarrow> n)"

definition sortedControllers :: "('c, 'e) state \<Rightarrow> 'c list" where
  \<comment> \<open>\<open>Array.prototype.sort\<close> is stable; the comparator is the difference of the keys\<close>
  "sortedControllers st = sort_key (loadOrderOf st) (registered st)"

text \<open>The loop of lines 179 to 181.\<close>

fun registerAll ::
  "('c, 'e) classes \<Rightarrow> nat \<Rightarrow> ('c, 'e) state \<Rightarrow> 'c list
     \<Rightarrow> (('e error + unit) \<times> ('c, 'e) state) option" where
  "registerAll env n st [] = Some (Inr (), st)"
| "registerAll env n st (c # cs) =
     (case registerController env n st c of
        None \<Rightarrow> None
      | Some (Inl e, st1) \<Rightarrow> Some (Inl e, st1)
      | Some (Inr inst, st1) \<Rightarrow> registerAll env n st1 cs)"

text \<open>
  The loop of lines 185 to 196. The executor of \<open>new Promise\<close> runs at once, so the start
  hooks are called in the order of the loop. A promise is kept as its outcome (\<open>Some e\<close>
  when it rejects with \<open>e\<close>) with the instance the handler of \<open>catch\<close> will log. Reading the
  method of an instance that is \<open>undefined\<close> throws inside the executor and rejects the
  promise. A hook is taken as settled when it is called.
\<close>

fun startHooks ::
  "('c, 'e) classes \<Rightarrow> ('c, 'e) state \<Rightarrow> 'c list \<Rightarrow> ('e error option \<times> 'c obj option) list
     \<Rightarrow> ('e error option \<times> 'c obj option) list \<times> ('c, 'e) state" where
  "startHooks env st [] startPromises = (startPromises, st)"
| "startHooks env st (c # cs) startPromises =
     (case onStartMethod env c of
        None \<Rightarrow> startHooks env st cs startPromises
      | Some hook \<Rightarrow>
          (case controllerInstances st c of
             None \<Rightarrow> startHooks env st cs (startPromises @ [(Some TypeError, None)])
           | Some inst \<Rightarrow>
               (let st1 = observe (StartHook c) st
                in startHooks env st1 cs
                     (startPromises @ [(map_option Thrown (hook inst st1), Some inst)]))))"

text \<open>
  The handler given to \<open>catch\<close> logs the warning and returns, so the promise that \<open>catch\<close>
  returns is fulfilled. \<open>Promise_all\<close> rejects with the first rejection among its promises.
\<close>

fun catchAll ::
  "('c, 'e) state \<Rightarrow> ('e error option \<times> 'c obj option) list
     \<Rightarrow> 'e error option list \<times> ('c, 'e) state" where
  "catchAll st [] = ([], st)"
| "catchAll st ((None, inst) # ps) =
     (case catchAll st ps of (rs, st1) \<Rightarrow> (None # rs, st1))"
| "catchAll st ((Some e, inst) # ps) =
     (case catchAll (DebugLog Warn ''Error in OnStart:'' (Some e) inst st) ps of
        (rs, st1) \<Rightarrow> (None # rs, st1))"

fun Promise_all :: "'e error option list \<Rightarrow> 'e error + unit" where
  "Promise_all [] = Inr ()"
| "Promise_all (None # ps) = Promise_all ps"
| "Promise_all (Some e # ps) = Inl e"

definition startPhase ::
  "('c, 'e) classes \<Rightarrow> ('c, 'e) state \<Rightarrow> 'c list \<Rightarrow> ('e error + unit) \<times> ('c, 'e) state" where
  "startPhase env st cs =
     (case startHooks env st cs [] of
        (startPromises, st1) \<Rightarrow>
          (case catchAll st1 startPromises of (settled, st2) \<Rightarrow> (Promise_all settled, st2)))"

text \<open>Lines 167 to 170.\<close>

definition starting :: "('c, 'e) state \<Rightarrow> ('c, 'e) state" where
  "starting st =
     (let st0 = st\<lparr>started := True\<rparr>
      in if controllerRegistry st0 = []
         then DebugLog Warn ''No controllers registered'' None None st0 else st0)"

text \<open>
  The depth of the recursion of \<open>registerController\<close> is at most the number of registered
  classes: each level marks one more of them as being registered.
\<close>

definition Start ::
  "('c, 'e) classes \<Rightarrow> ('c, 'e) state \<Rightarrow> (('e error + unit) \<times> ('c, 'e) state) option" where
  "Start env st =
     (let st1 = starting st;
          sorted = sortedControllers st1
      in case registerAll env (Suc (length (controllerRegistry st1))) st1 sorted of
           None \<Rightarrow> None
         | Some (Inl e, st2) \<Rightarrow> Some (Inl e, st2)
         | Some (Inr u, st2) \<Rightarrow> Some (startPhase env st2 sorted))"

subsection \<open>Runs of the public interface\<close>

text \<open>
  What a program does with the library is a sequence of declarations (the decorator runs
  when a class is defined) and calls of \<open>AppLife.Start\<close>, each awaited; \<open>run\<close> gives the
  state after such a sequence. An error thrown by a call is dropped here, as by a caller
  that catches it; the state the call leaves behind is kept.
\<close>

datatype 'c call = Declare options 'c | RunLifecycle

fun run :: "('c, 'e) classes \<Rightarrow> 'c call list \<Rightarrow> ('c, 'e) state \<Rightarrow> ('c, 'e) state" where
  "run env [] st = st"
| "run env (Declare opts c # calls) st = run env calls (snd (Controller opts c st))"
| "run env (RunLifecycle # calls) st =
     (case Start env st of None \<Rightarrow> st | Some (r, st1) \<Rightarrow> run env calls st1)"

fun declareCall :: "'c \<times> options \<Rightarrow> 'c call" where
  "declareCall (c, opts) = Declare opts c"

subsection \<open>Notions used in the statements\<close>

definition inFlight :: "('c, 'e) state \<Rightarrow> 'c \<Rightarrow> bool" where
  \<comment> \<open>marked as being registered, and without an instance\<close>
  "inFlight st c \<longleftrightarrow> c \<in> registeringControllers st \<and> controllerInstances st c = None"

definition pending :: "('c, 'e) state \<Rightarrow> 'c set" where
  \<comment> \<open>the registered classes that \<open>registerController\<close> has not entered yet\<close>
  "pending st = {c \<in> set (registered st).
     controllerInstances st c = None \<and> c \<notin> registeringControllers st}"

definition frame :: "('c, 'e) state \<Rightarrow> ('c, 'e) state \<Rightarrow> bool" where
  \<comment> \<open>what no step of a registration changes: declarations stay, instances stay, events
     are only added\<close>
  "frame s s' \<longleftrightarrow>
     controllerRegistry s' = controllerRegistry s \<and> loadOrderMap s' = loadOrderMap s \<and>
     started s' = started s \<and>
     (\<forall>c i. controllerInstances s c = Some i \<longrightarrow> controllerInstances s' c = Some i) \<and>
     (\<exists>tr. events s' = events s @ tr)"

definition newEvents :: "('c, 'e) state \<Rightarrow> ('c, 'e) state \<Rightarrow> ('c, 'e) event list" where
  \<comment> \<open>the events of \<open>s'\<close> that were not yet in \<open>s\<close>\<close>
  "newEvents s s' = drop (length (events s)) (events s')"

fun constructed :: "('c, 'e) event list \<Rightarrow> 'c list" where
  "constructed [] = []"
| "constructed (Construct c # evs) = c # constructed evs"
| "constructed (ev # evs) = constructed evs"

fun initCalls :: "('c, 'e) event list \<Rightarrow> 'c list" where
  "initCalls [] = []"
| "initCalls (Init c # evs) = c # initCalls evs"
| "initCalls (ev # evs) = initCalls evs"

fun stores :: "('c, 'e) event list \<Rightarrow> 'c list" where
  "stores [] = []"
| "stores (Stored c # evs) = c # stores evs"
| "stores (ev # evs) = stores evs"

fun startCalls :: "('c, 'e) event list \<Rightarrow> 'c list" where
  "startCalls [] = []"
| "startCalls (StartHook c # evs) = c # startCalls evs"
| "startCalls (ev # evs) = startCalls evs"

fun quiet :: "('c, 'e) event \<Rightarrow> bool" where
  \<comment> \<open>warnings and calls of start hooks\<close>
  "quiet (Console Warn m e i) = True"
| "quiet (StartHook c) = True"
| "quiet ev = False"

fun isErr :: "('c, 'e) event \<Rightarrow> bool" where
  \<comment> \<open>a line of \<open>DebugLog("error", ...)\<close>: lines 114 and 124\<close>
  "isErr (Console Err m e i) = True"
| "isErr ev = False"

definition dependenciesFirst :: "('c, 'e) classes \<Rightarrow> ('c, 'e) event list \<Rightarrow> bool" where
  \<comment> \<open>before each construction step, every dependency of the class has been stored\<close>
  "dependenciesFirst env evs \<longleftrightarrow>
     (\<forall>pre post a b. evs = pre @ Construct a # post \<longrightarrow> b \<in> set (dependenciesOf env a)
        \<longrightarrow> Stored b \<in> set pre)"

fun classOf :: "'c obj \<Rightarrow> 'c" where
  "classOf (Instance c ds) = c"

fun wellFormed :: "('c, 'e) classes \<Rightarrow> 'c obj \<Rightarrow> bool" where
  \<comment> \<open>an instance built from instances of its declared dependencies, themselves so built\<close>
  "wellFormed env (Instance c ds) \<longleftrightarrow>
     map classOf ds = dependenciesOf env c \<and> (\<forall>d\<in>set ds. wellFormed env d)"

definition neverThrows :: "('c, 'e) classes \<Rightarrow> bool" where
  \<comment> \<open>no constructor and no init hook throws\<close>
  "neverThrows env \<longleftrightarrow>
     (\<forall>c ds s. construct env c ds s = None) \<and>
     (\<forall>c h i s. onInitMethod env c = Some h \<longrightarrow> h i s = None)"

definition dependenciesDeclared :: "('c, 'e) classes \<Rightarrow> ('c, 'e) state \<Rightarrow> bool" where
  \<comment> \<open>every dependency of a registered class is registered\<close>
  "dependenciesDeclared env st \<longleftrightarrow>
     (\<forall>c\<in>set (registered st). \<forall>d\<in>set (dependenciesOf env c). registryHas st d)"

definition onCycle :: "('c, 'e) classes \<Rightarrow> 'c \<Rightarrow> bool" where
  \<comment> \<open>the class depends on itself, or on a class that depends on it\<close>
  "onCycle env c \<longleftrightarrow>
     c \<in> set (dependenciesOf env c) \<or>
     (\<exists>d\<in>set (dependenciesOf env c). c \<in> set (dependenciesOf env d))"

definition raisedBy :: "('c, 'e) classes \<Rightarrow> 'c \<Rightarrow> 'e \<Rightarrow> bool" where
  \<comment> \<open>the constructor or the init hook of the class throws the value, on some input\<close>
  "raisedBy env c x \<longleftrightarrow>
     (\<exists>ds s. construct env c ds s = Some x) \<or>
     (\<exists>h i s. onInitMethod env c = Some h \<and> h i s = Some x)"

definition haltedBy :: "('c, 'e) classes \<Rightarrow> ('c, 'e) event list \<Rightarrow> 'e \<Rightarrow> 'c \<Rightarrow> bool" where
  \<comment> \<open>the events end with the construction step of the class, or with it and the call of
     its init hook, and then the error line of what was thrown; no error line comes
     before\<close>
  "haltedBy env tr x f \<longleftrightarrow>
     raisedBy env f x \<and>
     (\<exists>pre. (\<forall>ev\<in>set pre. \<not> isErr ev) \<and>
        (tr = pre @ [Construct f, Console Err ''Error in constructor:'' (Some (Thrown x)) None] \<or>
         tr = pre @ [Construct f, Init f, Console Err ''Error in OnInit:'' (Some (Thrown x)) None]))"

definition reported ::
  "('c, 'e) classes \<Rightarrow> 'e error + 'a \<Rightarrow> ('c, 'e) state \<Rightarrow> ('c, 'e) state \<Rightarrow> bool" where
  \<comment> \<open>how the events added between two states tell the result: an error line is written
     exactly when the result is what a constructor or an init hook threw, and it is then
     the last event; no start hook is called\<close>
  "reported env r s s' \<longleftrightarrow>
     (\<exists>tr. events s' = events s @ tr \<and> startCalls tr = [] \<and>
        (\<forall>x. r = Inl (Thrown x) \<longrightarrow> (\<exists>f. haltedBy env tr x f \<and> inFlight s' f)) \<and>
        ((\<forall>x. r \<noteq> Inl (Thrown x)) \<longrightarrow> (\<forall>ev\<in>set tr. \<not> isErr ev)))"

text \<open>
  The states that may follow a state: any number of complete calls of
  \<open>registerController\<close> or of its loop, of entries into a registration, of declarations
  and of lifecycle runs.
\<close>

inductive later :: "('c, 'e) classes \<Rightarrow> ('c, 'e) state \<Rightarrow> ('c, 'e) state \<Rightarrow> bool"
  for env :: "('c, 'e) classes" and st :: "('c, 'e) state" where
  here: "later env st st"
| registers: "later env st s \<Longrightarrow> registerController env n s c = Some (r, s') \<Longrightarrow> later env st s'"
| resolves: "later env st s \<Longrightarrow> resolveDependencies env n s ds acc = Some (rs, s')
    \<Longrightarrow> later env st s'"
| marks: "later env st s \<Longrightarrow> controllerInstances s c = None \<Longrightarrow> c \<notin> registeringControllers s
    \<Longrightarrow> later env st (mark c s)"
| declares: "later env st s \<Longrightarrow> later env st (snd (Controller opts c s))"
| starts: "later env st s \<Longrightarrow> Start env s = Some (r, s') \<Longrightarrow> later env st s'"

text \<open>
  The spec's order for components without interdependencies: ascending load order, ties
  in the order of declaration. \<open>hint\<close> is the load order of a declaration, 0 when the
  options give none.
\<close>

definition hint :: "('c \<times> options) list \<Rightarrow> 'c \<Rightarrow> int" where
  "hint ds c = (case map_of ds c of
      None \<Rightarrow> 0
    | Some opts \<Rightarrow> (case loadOrder opts of None \<Rightarrow> 0 | Some n \<Rightarrow> n))"

definition ascendingLoadOrder :: "('c \<Rightarrow> int) \<Rightarrow> 'c list \<Rightarrow> 'c list \<Rightarrow> bool" where
  "ascendingLoadOrder key declared xs \<longleftrightarrow>
     sorted (map key xs) \<and>
     (\<forall>k. filter (\<lambda>c. key c = k) xs = filter (\<lambda>c. key c = k) declared)"

text \<open>
  Three invariants of the states that runs reach. \<open>tracked\<close>: every instance in the table
  was constructed and stored, and no construction step came before the stores of its
  dependencies. \<open>sound\<close>: every instance in the table is the instance of its class, built
  from instances of its dependencies, which are in the table too. \<open>vetted\<close>: a class was
  constructed only if all its dependencies are registered.
\<close>

definition tracked :: "('c, 'e) classes \<Rightarrow> ('c, 'e) state \<Rightarrow> bool" where
  "tracked env st \<longleftrightarrow>
     (\<forall>c i. controllerInstances st c = Some i \<longrightarrow>
        Stored c \<in> set (events st) \<and> Construct c \<in> set (events st)) \<and>
     dependenciesFirst env (events st)"

definition sound :: "('c, 'e) classes \<Rightarrow> ('c, 'e) state \<Rightarrow> bool" where
  "sound env st \<longleftrightarrow>
     (\<forall>c i. controllerInstances st c = Some i \<longrightarrow>
        classOf i = c \<and> wellFormed env i \<and>
        (\<forall>d\<in>set (dependenciesOf env c). controllerInstances st d \<noteq> None))"

definition vetted :: "('c, 'e) classes \<Rightarrow> ('c, 'e) state \<Rightarrow> bool" where
  "vetted env st \<longleftrightarrow>
     (\<forall>c. Construct c \<in> set (events st) \<longrightarrow>
        (\<forall>d\<in>set (dependenciesOf env c). registryHas st d))"

subsection \<open>Example programs\<close>

text \<open>
  Classes are numbered; class 1 is named A, class 2 is named B, every other class X. The
  dependencies are given as a function; the constructors, init hooks and start hooks of
  the classes in the three lists throw. Every class has both hooks.
\<close>

definition exampleClasses ::
  "(nat \<Rightarrow> nat list) \<Rightarrow> nat list \<Rightarrow> nat list \<Rightarrow> nat list \<Rightarrow> (nat, string) classes" where
  "exampleClasses deps badConstructors badInits badStarts =
     \<lparr>className = (\<lambda>c. if c = 1 then ''A'' else if c = 2 then ''B'' else ''X''),
      paramtypes = (\<lambda>c. Some (deps c)),
      construct = (\<lambda>c ds s. if c \<in> set badConstructors then Some ''constructor failed'' else None),
      onInitMethod = (\<lambda>c. Some (\<lambda>i s. if c \<in> set badInits then Some ''init failed'' else None)),
      onStartMethod = (\<lambda>c. Some (\<lambda>i s. if c \<in> set badStarts then Some ''start failed'' else None))\<rparr>"

definition noDependencies :: "nat \<Rightarrow> nat list" where
  "noDependencies c = []"

definition secondNeedsFirst :: "nat \<Rightarrow> nat list" where
  \<comment> \<open>B depends on A\<close>
  "secondNeedsFirst c = (if c = 2 then [1] else [])"

definition mutualCycle :: "nat \<Rightarrow> nat list" where
  \<comment> \<open>A depends on B and B depends on A\<close>
  "mutualCycle c = (if c = 1 then [2] else if c = 2 then [1] else [])"

definition missingThenSelf :: "nat \<Rightarrow> nat list" where
  \<comment> \<open>A depends on a class X that is never declared, then on itself\<close>
  "missingThenSelf c = (if c = 1 then [3, 1] else [])"



definition oneDeclared :: "nat call list" where
  "oneDeclared = [Declare \<lparr>loadOrder = None\<rparr> 1]"



definition threeHints :: "(nat \<times> options) list" where
  \<comment> \<open>A with load order 2, B without one, a third class with load order 2\<close>
  "threeHints = [(1, \<lparr>loadOrder = Some 2\<rparr>), (2, \<lparr>loadOrder = None\<rparr>), (3, \<lparr>loadOrder = Some 2\<rparr>)]"

definition twoDeclared :: "nat call list" where
  \<comment> \<open>A with load order 2, then B with load order 1\<close>
  "twoDeclared = [Declare \<lparr>loadOrder = Some 2\<rparr> 1, Declare \<lparr>loadOrder = Some 1\<rparr> 2]"

section \<open>Properties\<close>

subsection \<open>Case analysis of the model\<close>

lemma createInstance_raisedBy:
  assumes "createInstance env st c ds = (Inl (Thrown e), st')"
  shows "raisedBy env c e"
proof (cases "construct env c ds (observe (Construct c) st)")
  case (Some x)
  with assms have "x = e" by (simp add: createInstance_def Let_def)
  with Some show ?thesis unfolding raisedBy_def by blast
next
  case None
  with assms obtain h where h: "onInitMethod env c = Some h"
    by (cases "onInitMethod env c") (simp_all add: createInstance_def Let_def)
  with None assms
  have "h (Instance c ds) (observe (Init c) (observe (Construct c) st)) = Some e"
    by (simp add: createInstance_def Let_def split: option.splits)
  with h show ?thesis unfolding raisedBy_def by blast
qed

lemma createInstance_cases:
  assumes "createInstance env st c ds = (r, st')"
  obtains
    (ok) tr where "r = Inr (Instance c ds)"
      "controllerInstances st' = (controllerInstances st)(c \<mapsto> Instance c ds)"
      "registeringControllers st' = registeringControllers st - {c}"
      "events st' = events st @ Construct c # tr @ [Stored c]"
      "tr = [] \<or> tr = [Init c]"
      "controllerRegistry st' = controllerRegistry st"
      "loadOrderMap st' = loadOrderMap st" "started st' = started st"
  | (fail) e tr msg where "r = Inl (Thrown e)"
      "controllerInstances st' = controllerInstances st"
      "registeringControllers st' = registeringControllers st"
      "events st' = events st @ tr @ [Console Err msg (Some (Thrown e)) None]"
      "tr = [Construct c] \<and> msg = ''Error in constructor:'' \<or>
       tr = [Construct c, Init c] \<and> msg = ''Error in OnInit:''"
      "controllerRegistry st' = controllerRegistry st"
      "loadOrderMap st' = loadOrderMap st" "started st' = started st"
      "raisedBy env c e"
proof -
  have "\<And>e. r = Inl (Thrown e) \<Longrightarrow> raisedBy env c e"
    using assms by (auto intro: createInstance_raisedBy)
  with assms that show thesis
    by (auto simp: createInstance_def observe_def DebugLog_def Let_def split: option.splits)
qed

lemma registerController_Suc_cases:
  assumes "registerController env (Suc n) st c = Some (r, st')"
  obtains
    (cached) i where "controllerInstances st c = Some i" "r = Inr i" "st' = st"
  | (cyclic) "controllerInstances st c = None" "c \<in> registeringControllers st"
      "r = Inl (AppLifeError ''Cyclic dependency detected'')" "st' = st"
  | (depfail) e where "controllerInstances st c = None" "c \<notin> registeringControllers st"
      "resolveDependencies env n (mark c st) (dependenciesOf env c) [] = Some (Inl e, st')"
      "r = Inl e"
  | (create) ds st1 where "controllerInstances st c = None" "c \<notin> registeringControllers st"
      "resolveDependencies env n (mark c st) (dependenciesOf env c) [] = Some (Inr ds, st1)"
      "createInstance env st1 c ds = (r, st')"
  using assms
  by (auto split: option.splits if_splits sum.splits prod.splits)

lemma resolveDependencies_Cons_cases:
  assumes "resolveDependencies env n st (dep # rest) acc = Some (r, st')"
  obtains
    (unknown) "\<not> registryHas st dep" "st' = st"
      "r = Inl (AppLifeError (''Dependency '' @ className env dep @ '' not registered via @Controller''))"
  | (depfail) e where "registryHas st dep" "registerController env n st dep = Some (Inl e, st')"
      "r = Inl e"
  | (continue) i st1 where "registryHas st dep"
      "registerController env n st dep = Some (Inr i, st1)"
      "resolveDependencies env n st1 rest (acc @ [i]) = Some (r, st')"
  using assms
  by (auto split: option.splits if_splits sum.splits prod.splits)

lemma inFlight_preserved:
  "registerController env n st c = Some (r, st') \<Longrightarrow> inFlight st x \<Longrightarrow> inFlight st' x"
  "resolveDependencies env n st ds acc = Some (rs, st') \<Longrightarrow> inFlight st x \<Longrightarrow> inFlight st' x"
proof (induction env n st c and env n st ds acc arbitrary: r st' and rs st'
    rule: registerController_resolveDependencies.induct)
  case (1 env st c)
  then show ?case by simp
next
  case (2 env n st c)
  from "2.prems"(1) show ?case
  proof (cases rule: registerController_Suc_cases)
    case (cached i)
    with "2.prems" show ?thesis by simp
  next
    case cyclic
    with "2.prems" show ?thesis by simp
  next
    case (depfail e)
    have "inFlight (mark c st) x" using "2.prems"(2) by (simp add: inFlight_def mark_def)
    with "2.IH"[OF depfail(1,2)] depfail(3) show ?thesis by (simp add: mark_def)
  next
    case (create ds st1)
    have "inFlight (mark c st) x" using "2.prems"(2) by (simp add: inFlight_def mark_def)
    with "2.IH"[OF create(1,2)] create(3) have st1: "inFlight st1 x" by (simp add: mark_def)
    have "c \<noteq> x" using create(2) "2.prems"(2) by (auto simp: inFlight_def)
    from create(4) show ?thesis
      by (cases rule: createInstance_cases) (use st1 \<open>c \<noteq> x\<close> in \<open>auto simp: inFlight_def\<close>)
  qed
next
  case (3 env n st dependencies)
  then show ?case by simp
next
  case (4 env n st dep rest dependencies)
  from "4.prems"(1) show ?case
  proof (cases rule: resolveDependencies_Cons_cases)
    case unknown
    with "4.prems" show ?thesis by simp
  next
    case (depfail e)
    with "4.IH"(1) "4.prems" show ?thesis by simp
  next
    case (continue i st1)
    with "4.IH"(1) "4.prems" have "inFlight st1 x" by simp
    with "4.IH"(2)[OF _ continue(2) refl refl continue(3)] continue(1) show ?thesis by simp
  qed
qed


lemma register_rel0:
  assumes r_refl: "\<And>env s. R env s s"
    and r_trans: "\<And>env a b c. R env a b \<Longrightarrow> R env b c \<Longrightarrow> R env a c"
    and r_mark: "\<And>env s c. controllerInstances s c = None \<Longrightarrow> c \<notin> registeringControllers s
                 \<Longrightarrow> R env s (mark c s)"
    and r_create: "\<And>env s c ds r s'. inFlight s c \<Longrightarrow> createInstance env s c ds = (r, s')
                 \<Longrightarrow> R env s s'"
  shows "registerController env n st c = Some (r, st') \<Longrightarrow> R env st st'"
    and "resolveDependencies env n st ds acc = Some (rs, st') \<Longrightarrow> R env st st'"
proof (induction env n st c and env n st ds acc arbitrary: r st' and rs st'
    rule: registerController_resolveDependencies.induct)
  case (1 env st c)
  then show ?case by simp
next
  case (2 env n st c)
  from "2.prems"(1) show ?case
  proof (cases rule: registerController_Suc_cases)
    case (cached i)
    then show ?thesis by (simp add: r_refl)
  next
    case cyclic
    then show ?thesis by (simp add: r_refl)
  next
    case (depfail e)
    from "2.IH"[OF depfail(1,2) depfail(3)] r_mark[OF depfail(1,2)]
    show ?thesis by (rule r_trans[rotated])
  next
    case (create ds st1)
    have "inFlight (mark c st) c" using create(1) by (simp add: inFlight_def mark_def)
    then have "inFlight st1 c" by (rule inFlight_preserved(2)[OF create(3)])
    then have "R env st1 st'" using create(4) by (rule assms(4))
    moreover have "R env st st1"
      using "2.IH"[OF create(1,2) create(3)] r_mark[OF create(1,2)]
      by (rule r_trans[rotated])
    ultimately show ?thesis by (rule r_trans[rotated])
  qed
next
  case (3 env n st dependencies)
  then show ?case by (simp add: r_refl)
next
  case (4 env n st dep rest dependencies)
  from "4.prems"(1) show ?case
  proof (cases rule: resolveDependencies_Cons_cases)
    case unknown
    then show ?thesis by (simp add: r_refl)
  next
    case (depfail e)
    with "4.IH"(1) "4.prems" show ?thesis by simp
  next
    case (continue i st1)
    with "4.IH"(1) "4.prems" have "R env st st1" by simp
    moreover have "R env st1 st'"
      using "4.IH"(2)[OF _ continue(2) refl refl continue(3)] continue(1) by simp
    ultimately show ?thesis by (rule r_trans)
  qed
qed

text \<open>frame\<close>

lemma frame_refl: "frame s s"
  by (simp add: frame_def)

lemma frame_trans: "frame a b \<Longrightarrow> frame b c \<Longrightarrow> frame a c"
  by (auto simp: frame_def)

lemma frame_mark: "frame s (mark c s)"
  by (simp add: frame_def mark_def)

lemma frame_createInstance:
  "inFlight s c \<Longrightarrow> createInstance env s c ds = (r, s') \<Longrightarrow> frame s s'"
  by (erule createInstance_cases) (auto simp: frame_def inFlight_def)

lemma register_frame:
  "registerController env n st c = Some (r, st') \<Longrightarrow> frame st st'"
  "resolveDependencies env n st ds acc = Some (rs, st') \<Longrightarrow> frame st st'"
  by (rule register_rel0[where R="\<lambda>_. frame"];
      blast intro: frame_refl frame_trans frame_mark frame_createInstance)+


lemma register_returns:
  "registerController env n st c = Some (Inr i, st') \<Longrightarrow> controllerInstances st' c = Some i"
  "resolveDependencies env n st ds acc = Some (Inr rs, st') \<Longrightarrow>
     (\<exists>new. rs = acc @ new \<and> list_all2 (\<lambda>d i. controllerInstances st' d = Some i) ds new) \<and>
     (\<forall>d\<in>set ds. registryHas st' d)"
proof (induction env n st c and env n st ds acc arbitrary: i st' and rs st'
    rule: registerController_resolveDependencies.induct)
  case (1 env st c)
  then show ?case by simp
next
  case (2 env n st c)
  from "2.prems"(1) show ?case
  proof (cases rule: registerController_Suc_cases)
    case (create ds st1)
    from create(4) show ?thesis
      by (cases rule: createInstance_cases) auto
  qed auto
next
  case (3 env n st dependencies)
  then show ?case by simp
next
  case (4 env n st dep rest dependencies)
  from "4.prems"(1) show ?case
  proof (cases rule: resolveDependencies_Cons_cases)
    case (continue j st1)
    from "4.IH"(1) continue have j: "controllerInstances st1 dep = Some j" by simp
    from "4.IH"(2)[OF _ continue(2) HOL.refl HOL.refl continue(3)] continue(1)
    obtain new where new: "rs = (dependencies @ [j]) @ new"
      "list_all2 (\<lambda>d i. controllerInstances st' d = Some i) rest new"
      "\<forall>d\<in>set rest. registryHas st' d"
      by auto
    have fr: "frame st st1" "frame st1 st'"
      using register_frame(1)[OF continue(2)] register_frame(2)[OF continue(3)] by simp_all
    from fr j have "controllerInstances st' dep = Some j" by (simp add: frame_def)
    moreover from fr continue(1) have "registryHas st' dep"
      by (simp add: frame_def registryHas_def registered_def)
    ultimately show ?thesis using new by auto
  qed auto
qed

lemma register_fails_inFlight:
  assumes "registerController env n st c = Some (Inl e, st')"
  shows "inFlight st' c"
proof (cases n)
  case 0
  with assms show ?thesis by simp
next
  case (Suc m)
  from assms[unfolded Suc] show ?thesis
  proof (cases rule: registerController_Suc_cases)
    case (cached i)
    then show ?thesis by simp
  next
    case cyclic
    then show ?thesis by (simp add: inFlight_def)
  next
    case (depfail e')
    have "inFlight (mark c st) c" using depfail(1) by (simp add: inFlight_def mark_def)
    then show ?thesis by (rule inFlight_preserved(2)[OF depfail(3)])
  next
    case (create ds st1)
    have "inFlight (mark c st) c" using create(1) by (simp add: inFlight_def mark_def)
    then have "inFlight st1 c" by (rule inFlight_preserved(2)[OF create(3)])
    with create(4) show ?thesis
      by (cases rule: createInstance_cases) (auto simp: inFlight_def)
  qed
qed

text \<open>The rule for relations and invariants, with what is known when an instance is created.\<close>

lemma register_rel:
  assumes r_refl: "\<And>env s. R env s s"
    and r_trans: "\<And>env a b c. R env a b \<Longrightarrow> R env b c \<Longrightarrow> R env a c"
    and r_mark: "\<And>env s c. controllerInstances s c = None \<Longrightarrow> c \<notin> registeringControllers s
                 \<Longrightarrow> R env s (mark c s)"
    and r_create: "\<And>env s c ds r s'. inFlight s c \<Longrightarrow>
          list_all2 (\<lambda>d i. controllerInstances s d = Some i) (dependenciesOf env c) ds \<Longrightarrow>
          \<forall>d\<in>set (dependenciesOf env c). registryHas s d \<Longrightarrow>
          createInstance env s c ds = (r, s') \<Longrightarrow> R env s s'"
  shows "registerController env n st c = Some (r, st') \<Longrightarrow> R env st st'"
    and "resolveDependencies env n st ds acc = Some (rs, st') \<Longrightarrow> R env st st'"
proof (induction env n st c and env n st ds acc arbitrary: r st' and rs st'
    rule: registerController_resolveDependencies.induct)
  case (1 env st c)
  then show ?case by simp
next
  case (2 env n st c)
  from "2.prems"(1) show ?case
  proof (cases rule: registerController_Suc_cases)
    case (cached i)
    then show ?thesis by (simp add: r_refl)
  next
    case cyclic
    then show ?thesis by (simp add: r_refl)
  next
    case (depfail e)
    from "2.IH"[OF depfail(1,2) depfail(3)] r_mark[OF depfail(1,2)]
    show ?thesis by (rule r_trans[rotated])
  next
    case (create ds st1)
    have "inFlight (mark c st) c" using create(1) by (simp add: inFlight_def mark_def)
    then have "inFlight st1 c" by (rule inFlight_preserved(2)[OF create(3)])
    moreover from register_returns(2)[OF create(3)]
    have "list_all2 (\<lambda>d i. controllerInstances st1 d = Some i) (dependenciesOf env c) ds"
      "\<forall>d\<in>set (dependenciesOf env c). registryHas st1 d"
      by simp_all
    ultimately have "R env st1 st'" using create(4) by (rule assms(4))
    moreover have "R env st st1"
      using "2.IH"[OF create(1,2) create(3)] r_mark[OF create(1,2)]
      by (rule r_trans[rotated])
    ultimately show ?thesis by (rule r_trans[rotated])
  qed
next
  case (3 env n st dependencies)
  then show ?case by (simp add: r_refl)
next
  case (4 env n st dep rest dependencies)
  from "4.prems"(1) show ?case
  proof (cases rule: resolveDependencies_Cons_cases)
    case unknown
    then show ?thesis by (simp add: r_refl)
  next
    case (depfail e)
    with "4.IH"(1) "4.prems" show ?thesis by simp
  next
    case (continue i st1)
    with "4.IH"(1) "4.prems" have "R env st st1" by simp
    moreover have "R env st1 st'"
      using "4.IH"(2)[OF _ continue(2) HOL.refl HOL.refl continue(3)] continue(1) by simp
    ultimately show ?thesis by (rule r_trans)
  qed
qed

lemma pending_register:
  "registerController env n st c = Some (r, st') \<Longrightarrow> pending st' \<subseteq> pending st"
  "resolveDependencies env n st ds acc = Some (rs, st') \<Longrightarrow> pending st' \<subseteq> pending st"
proof -
  have 1: "\<And>s c. pending (mark c s) \<subseteq> pending (s::('c, 'e) state)"
    by (auto simp: pending_def mark_def registered_def)
  have 2: "\<And>env s c ds r s'. createInstance env s c ds = (r, s') \<Longrightarrow> pending s' \<subseteq> pending (s::('c, 'e) state)"
    by (erule createInstance_cases) (auto simp: pending_def registered_def)
  show "registerController env n st c = Some (r, st') \<Longrightarrow> pending st' \<subseteq> pending st"
    by (rule register_rel0(1)[where R="\<lambda>_ s s'. pending s' \<subseteq> pending s"])
       (auto simp: 1 dest: 2)
  show "resolveDependencies env n st ds acc = Some (rs, st') \<Longrightarrow> pending st' \<subseteq> pending st"
    by (rule register_rel0(2)[where R="\<lambda>_ s s'. pending s' \<subseteq> pending s"])
       (auto simp: 1 dest: 2)
qed

lemma finite_pending: "finite (pending st)"
  by (simp add: pending_def)

lemma register_total:
  "card (pending st) < n \<Longrightarrow> registryHas st c \<Longrightarrow> \<exists>r st'. registerController env n st c = Some (r, st')"
  "card (pending st) < n \<Longrightarrow> \<exists>rs st'. resolveDependencies env n st ds acc = Some (rs, st')"
proof (induction env n st c and env n st ds acc
    rule: registerController_resolveDependencies.induct)
  case (1 env st c)
  then show ?case by simp
next
  case (2 env n st c)
  show ?case
  proof (cases "controllerInstances st c = None \<and> c \<notin> registeringControllers st")
    case False
    then show ?thesis by (auto split: option.splits)
  next
    case True
    then have "c \<in> pending st" using "2.prems"(2)
      by (simp add: pending_def registryHas_def)
    moreover have "pending (mark c st) \<subseteq> pending st - {c}"
      by (auto simp: pending_def mark_def registered_def)
    ultimately have "card (pending (mark c st)) < card (pending st)"
      by (metis finite_pending card_Diff1_less card_mono finite_Diff le_less_trans)
    with "2.prems"(1) have "card (pending (mark c st)) < n" by simp
    with "2.IH" True
    obtain rs st1 where "resolveDependencies env n (mark c st) (dependenciesOf env c) [] = Some (rs, st1)"
      by auto
    with True show ?thesis
      by (cases rs) (auto split: prod.splits)
  qed
next
  case (3 env n st dependencies)
  then show ?case by simp
next
  case (4 env n st dep rest dependencies)
  show ?case
  proof (cases "registryHas st dep")
    case False
    then show ?thesis by simp
  next
    case True
    with "4.IH"(1) "4.prems" obtain r st1 where r: "registerController env n st dep = Some (r, st1)"
      by auto
    show ?thesis
    proof (cases r)
      case (Inl e)
      with r True show ?thesis by simp
    next
      case (Inr b)
      have "card (pending st1) \<le> card (pending st)"
        using pending_register(1)[OF r] by (simp add: card_mono finite_pending)
      with "4.prems" have "card (pending st1) < n" by simp
      with "4.IH"(2)[OF _ r HOL.refl Inr] True r Inr show ?thesis by simp
    qed
  qed
qed

lemma registerAll_rel:
  assumes r_refl: "\<And>env s. R env s s"
    and r_trans: "\<And>env a b c. R env a b \<Longrightarrow> R env b c \<Longrightarrow> R env a c"
    and r_mark: "\<And>env s c. controllerInstances s c = None \<Longrightarrow> c \<notin> registeringControllers s
                 \<Longrightarrow> R env s (mark c s)"
    and r_create: "\<And>env s c ds r s'. inFlight s c \<Longrightarrow>
          list_all2 (\<lambda>d i. controllerInstances s d = Some i) (dependenciesOf env c) ds \<Longrightarrow>
          \<forall>d\<in>set (dependenciesOf env c). registryHas s d \<Longrightarrow>
          createInstance env s c ds = (r, s') \<Longrightarrow> R env s s'"
  shows "registerAll env n st cs = Some (r, st') \<Longrightarrow> R env st st'"
proof (induction cs arbitrary: st)
  case Nil
  then show ?case by (simp add: r_refl)
next
  case (Cons c cs)
  from Cons.prems obtain x s1 where x: "registerController env n st c = Some (x, s1)"
    by (auto split: option.splits)
  have 1: "R env st s1"
    by (rule register_rel(1)[where R=R, OF _ _ _ _ x]; fact)
  show ?case
  proof (cases x)
    case (Inl e)
    with x Cons.prems 1 show ?thesis by simp
  next
    case (Inr i)
    with x Cons.prems have "registerAll env n s1 cs = Some (r, st')" by simp
    then have "R env s1 st'" by (rule Cons.IH)
    with 1 show ?thesis by (rule r_trans)
  qed
qed

lemma registerAll_frame: "registerAll env n st cs = Some (r, st') \<Longrightarrow> frame st st'"
  by (rule registerAll_rel[where R="\<lambda>_. frame"];
      blast intro: frame_refl frame_trans frame_mark frame_createInstance)

lemma registerAll_pending:
  "registerAll env n st cs = Some (r, st') \<Longrightarrow> pending st' \<subseteq> pending st"
proof (induction cs arbitrary: st)
  case Nil
  then show ?case by simp
next
  case (Cons c cs)
  from Cons.prems obtain x s1 where x: "registerController env n st c = Some (x, s1)"
    by (auto split: option.splits)
  from pending_register(1)[OF x] Cons.IH[of s1] Cons.prems x show ?case
    by (cases x) auto
qed

lemma registerAll_total:
  "card (pending st) < n \<Longrightarrow> \<forall>c\<in>set cs. registryHas st c
     \<Longrightarrow> \<exists>r st'. registerAll env n st cs = Some (r, st')"
proof (induction cs arbitrary: st)
  case Nil
  then show ?case by simp
next
  case (Cons c cs)
  from register_total(1)[of st n c env] Cons.prems
  obtain x s1 where x: "registerController env n st c = Some (x, s1)" by auto
  show ?case
  proof (cases x)
    case (Inl e)
    with x show ?thesis by simp
  next
    case (Inr i)
    have "card (pending s1) \<le> card (pending st)"
      using pending_register(1)[OF x] by (simp add: card_mono finite_pending)
    moreover have "\<forall>c\<in>set cs. registryHas s1 c"
      using register_frame(1)[OF x] Cons.prems(2) by (simp add: frame_def registryHas_def registered_def)
    ultimately show ?thesis using Cons.IH[of s1] Cons.prems(1) x Inr by simp
  qed
qed

lemma registerAll_Inr:
  "registerAll env n st cs = Some (Inr u, st') \<Longrightarrow> \<forall>c\<in>set cs. controllerInstances st' c \<noteq> None"
proof (induction cs arbitrary: st)
  case Nil
  then show ?case by simp
next
  case (Cons c cs)
  from Cons.prems obtain i s1 where x: "registerController env n st c = Some (Inr i, s1)"
    and rest: "registerAll env n s1 cs = Some (Inr u, st')"
    by (auto split: option.splits sum.splits)
  from register_returns(1)[OF x] registerAll_frame[OF rest]
  have "controllerInstances st' c \<noteq> None" by (simp add: frame_def)
  with Cons.IH[OF rest] show ?case by simp
qed

lemma registerAll_Inl:
  "registerAll env n st cs = Some (Inl e, st') \<Longrightarrow>
     \<exists>c\<in>set cs. \<exists>s. frame st s \<and> registerController env n s c = Some (Inl e, st')"
proof (induction cs arbitrary: st)
  case Nil
  then show ?case by simp
next
  case (Cons c cs)
  from Cons.prems obtain x s1 where x: "registerController env n st c = Some (x, s1)"
    by (auto split: option.splits)
  show ?case
  proof (cases x)
    case (Inl e')
    with x Cons.prems show ?thesis by (auto intro: frame_refl)
  next
    case (Inr i)
    with x Cons.prems have "registerAll env n s1 cs = Some (Inl e, st')" by simp
    from Cons.IH[OF this] register_frame(1)[OF x] show ?thesis
      by (auto intro: frame_trans)
  qed
qed

text \<open>start phase\<close>

lemma loadOrderOf_cong: "loadOrderMap s' = loadOrderMap s \<Longrightarrow> loadOrderOf s' = loadOrderOf s"
  by (rule ext) (simp add: loadOrderOf_def)

lemma sortedControllers_cong:
  "controllerRegistry s' = controllerRegistry s \<Longrightarrow> loadOrderMap s' = loadOrderMap s
     \<Longrightarrow> sortedControllers s' = sortedControllers s"
  using loadOrderOf_cong[of s' s] by (simp add: sortedControllers_def registered_def)

lemma starting_fields:
  "controllerRegistry (starting st) = controllerRegistry st"
  "loadOrderMap (starting st) = loadOrderMap st"
  "controllerInstances (starting st) = controllerInstances st"
  "registeringControllers (starting st) = registeringControllers st"
  "started (starting st) = True"
  by (simp_all add: starting_def DebugLog_def observe_def Let_def)

lemma starting_derived:
  "registered (starting st) = registered st"
  "sortedControllers (starting st) = sortedControllers st"
  "pending (starting st) = pending st"
  "registryHas (starting st) = registryHas st"
  using sortedControllers_cong[of "starting st" st]
  by (simp_all add: registered_def pending_def starting_fields registryHas_def fun_eq_iff)

lemma Promise_all_fulfilled: "\<forall>p\<in>set ps. p = None \<Longrightarrow> Promise_all ps = Inr ()"
  by (induction ps) auto

lemma catchAll_fulfilled: "catchAll st ps = (rs, st') \<Longrightarrow> \<forall>p\<in>set rs. p = None"
  by (induction st ps arbitrary: rs st' rule: catchAll.induct) (auto split: prod.splits)

lemma startPhase_returns: "\<exists>st'. startPhase env st cs = (Inr (), st')"
  by (auto simp: startPhase_def split: prod.splits dest!: catchAll_fulfilled
      intro: Promise_all_fulfilled)

lemma Start_cases:
  assumes "Start env st = Some (r, st')"
  obtains
    (halted) e where "r = Inl e"
      "registerAll env (Suc (length (controllerRegistry st))) (starting st) (sortedControllers st)
         = Some (Inl e, st')"
  | (completed) u st2 where
      "registerAll env (Suc (length (controllerRegistry st))) (starting st) (sortedControllers st)
         = Some (Inr u, st2)"
      "startPhase env st2 (sortedControllers st) = (r, st')"
  using assms
  by (auto simp: Start_def Let_def starting_fields starting_derived split: option.splits sum.splits prod.splits)

lemma card_pending: "card (pending st) \<le> length (controllerRegistry st)"
proof -
  have "card (pending st) \<le> card (set (registered st))"
    by (rule card_mono) (auto simp: pending_def)
  also have "\<dots> \<le> length (registered st)" by (rule card_length)
  finally show ?thesis by (simp add: registered_def)
qed

lemma Start_total: "\<exists>r st'. Start env st = Some (r, st')"
proof -
  have "card (pending (starting st)) < Suc (length (controllerRegistry st))"
    using card_pending[of st] by (simp add: starting_derived)
  moreover have "\<forall>c\<in>set (sortedControllers st). registryHas (starting st) c"
    by (simp add: sortedControllers_def registryHas_def starting_derived)
  ultimately obtain r s where
    "registerAll env (Suc (length (controllerRegistry st))) (starting st) (sortedControllers st) = Some (r, s)"
    using registerAll_total by blast
  then show ?thesis
    by (cases r) (auto simp: Start_def Let_def starting_fields starting_derived split: prod.splits)
qed

lemma startHooks_rel:
  assumes r_refl: "\<And>env s. R env s s"
    and r_trans: "\<And>env a b c. R env a b \<Longrightarrow> R env b c \<Longrightarrow> R env a c"
    and r_observe: "\<And>env s ev. quiet ev \<Longrightarrow> R env s (observe ev s)"
  shows "startHooks env st cs ps = (ps', st') \<Longrightarrow> R env st st'"
proof (induction cs arbitrary: st ps)
  case Nil
  then show ?case by (simp add: r_refl)
next
  case (Cons c cs)
  show ?case
  proof (cases "onStartMethod env c")
    case None
    with Cons show ?thesis by simp
  next
    case (Some hook)
    show ?thesis
    proof (cases "controllerInstances st c")
      case None
      with Some Cons show ?thesis by simp
    next
      case (Some inst)
      have "R env st (observe (StartHook c) st)" by (rule r_observe) simp
      moreover have "R env (observe (StartHook c) st) st'"
        using Cons.prems Some \<open>onStartMethod env c = Some hook\<close>
        by (auto simp: Let_def intro: Cons.IH)
      ultimately show ?thesis by (rule r_trans)
    qed
  qed
qed

lemma catchAll_rel:
  assumes r_refl: "\<And>env s. R env s s"
    and r_trans: "\<And>env a b c. R env a b \<Longrightarrow> R env b c \<Longrightarrow> R env a c"
    and r_observe: "\<And>env s ev. quiet ev \<Longrightarrow> R env s (observe ev s)"
  shows "catchAll st ps = (rs, st') \<Longrightarrow> R env st st'"
proof (induction st ps arbitrary: rs rule: catchAll.induct)
  case (1 st)
  then show ?case by (simp add: r_refl)
next
  case (2 st inst ps)
  then show ?case by (auto split: prod.splits)
next
  case (3 st e inst ps)
  have "R env st (DebugLog Warn ''Error in OnStart:'' (Some e) inst st)"
    unfolding DebugLog_def by (rule r_observe) simp
  moreover from 3 have "R env (DebugLog Warn ''Error in OnStart:'' (Some e) inst st) st'"
    by (auto split: prod.splits)
  ultimately show ?case by (rule r_trans)
qed

lemma startPhase_rel:
  assumes r_refl: "\<And>env s. R env s s"
    and r_trans: "\<And>env a b c. R env a b \<Longrightarrow> R env b c \<Longrightarrow> R env a c"
    and r_observe: "\<And>env s ev. quiet ev \<Longrightarrow> R env s (observe ev s)"
  shows "startPhase env st cs = (r, st') \<Longrightarrow> R env st st'"
proof -
  assume a: "startPhase env st cs = (r, st')"
  obtain ps s1 where 1: "startHooks env st cs [] = (ps, s1)" by (cases "startHooks env st cs []")
  obtain rs s2 where 2: "catchAll s1 ps = (rs, s2)" by (cases "catchAll s1 ps")
  from a 1 2 have "s2 = st'" by (simp add: startPhase_def)
  moreover have "R env st s1" by (rule startHooks_rel[where R=R, OF _ _ _ 1]; fact)
  moreover have "R env s1 s2" by (rule catchAll_rel[where R=R, OF _ _ _ 2]; fact)
  ultimately show ?thesis by (auto intro: r_trans)
qed

lemma starting_rel:
  assumes r_refl: "\<And>env s. R env s s"
    and r_trans: "\<And>env a b c. R env a b \<Longrightarrow> R env b c \<Longrightarrow> R env a c"
    and r_observe: "\<And>env s ev. quiet ev \<Longrightarrow> R env s (observe ev s)"
    and r_started: "\<And>env s. R env s (s\<lparr>started := True\<rparr>)"
  shows "R env st (starting st)"
proof (cases "controllerRegistry st = []")
  case True
  have "R env (st\<lparr>started := True\<rparr>) (observe (Console Warn ''No controllers registered'' None None) (st\<lparr>started := True\<rparr>))"
    by (rule r_observe) simp
  with r_started[of env st] have "R env st (observe (Console Warn ''No controllers registered'' None None) (st\<lparr>started := True\<rparr>))"
    by (rule r_trans)
  with True show ?thesis by (simp add: starting_def DebugLog_def)
next
  case False
  with r_started[of env st] show ?thesis by (simp add: starting_def)
qed

lemma Start_rel:
  assumes r_refl: "\<And>env s. R env s s"
    and r_trans: "\<And>env a b c. R env a b \<Longrightarrow> R env b c \<Longrightarrow> R env a c"
    and r_mark: "\<And>env s c. controllerInstances s c = None \<Longrightarrow> c \<notin> registeringControllers s
                 \<Longrightarrow> R env s (mark c s)"
    and r_create: "\<And>env s c ds r s'. inFlight s c \<Longrightarrow>
          list_all2 (\<lambda>d i. controllerInstances s d = Some i) (dependenciesOf env c) ds \<Longrightarrow>
          \<forall>d\<in>set (dependenciesOf env c). registryHas s d \<Longrightarrow>
          createInstance env s c ds = (r, s') \<Longrightarrow> R env s s'"
    and r_observe: "\<And>env s ev. quiet ev \<Longrightarrow> R env s (observe ev s)"
    and r_started: "\<And>env s. R env s (s\<lparr>started := True\<rparr>)"
  shows "Start env st = Some (r, st') \<Longrightarrow> R env st st'"
proof -
  assume "Start env st = Some (r, st')"
  have s: "R env st (starting st)" by (rule starting_rel[where R=R]; fact)
  from \<open>Start env st = Some (r, st')\<close> show ?thesis
  proof (cases rule: Start_cases)
    case (halted e)
    have "R env (starting st) st'" by (rule registerAll_rel[where R=R, OF _ _ _ _ halted(2)]; fact)
    with s show ?thesis by (rule r_trans)
  next
    case (completed u st2)
    have "R env (starting st) st2"
      by (rule registerAll_rel[where R=R, OF _ _ _ _ completed(1)]; fact)
    with s have "R env st st2" by (rule r_trans)
    moreover have "R env st2 st'" by (rule startPhase_rel[where R=R, OF _ _ _ completed(2)]; fact)
    ultimately show ?thesis by (rule r_trans)
  qed
qed

lemma run_invariant:
  assumes i_mark: "\<And>env s c. I env s \<Longrightarrow> controllerInstances s c = None
          \<Longrightarrow> c \<notin> registeringControllers s \<Longrightarrow> I env (mark c s)"
    and i_create: "\<And>env s c ds r s'. I env s \<Longrightarrow> inFlight s c \<Longrightarrow>
          list_all2 (\<lambda>d i. controllerInstances s d = Some i) (dependenciesOf env c) ds \<Longrightarrow>
          \<forall>d\<in>set (dependenciesOf env c). registryHas s d \<Longrightarrow>
          createInstance env s c ds = (r, s') \<Longrightarrow> I env s'"
    and i_observe: "\<And>env s ev. I env s \<Longrightarrow> quiet ev \<Longrightarrow> I env (observe ev s)"
    and i_started: "\<And>env s. I env s \<Longrightarrow> I env (s\<lparr>started := True\<rparr>)"
    and i_declare: "\<And>env s opts c. I env s \<Longrightarrow> \<not> registryHas s c
          \<Longrightarrow> I env (snd (Controller opts c s))"
  shows "I env st \<Longrightarrow> I env (run env calls st)"
proof (induction calls arbitrary: st)
  case Nil
  then show ?case by simp
next
  case (Cons call calls)
  show ?case
  proof (cases call)
    case (Declare opts c)
    have "I env (snd (Controller opts c st))"
    proof (cases "registryHas st c")
      case True
      with Cons.prems show ?thesis by (simp add: Controller_def)
    next
      case False
      with Cons.prems show ?thesis by (rule i_declare)
    qed
    with Declare Cons.IH show ?thesis by simp
  next
    case RunLifecycle
    obtain r st1 where s: "Start env st = Some (r, st1)" using Start_total by blast
    have "I env st \<longrightarrow> I env st1"
      by (rule Start_rel[where R="\<lambda>env s s'. I env s \<longrightarrow> I env s'", OF _ _ _ _ _ _ s])
         (blast intro: i_mark i_create i_observe i_started)+
    with Cons.prems Cons.IH s RunLifecycle show ?thesis by simp
  qed
qed

lemma observe_fields [simp]:
  "controllerRegistry (observe ev s) = controllerRegistry s"
  "loadOrderMap (observe ev s) = loadOrderMap s"
  "controllerInstances (observe ev s) = controllerInstances s"
  "registeringControllers (observe ev s) = registeringControllers s"
  "started (observe ev s) = started s"
  "events (observe ev s) = events s @ [ev]"
  by (simp_all add: observe_def)

lemma mark_fields [simp]:
  "controllerRegistry (mark c s) = controllerRegistry s"
  "loadOrderMap (mark c s) = loadOrderMap s"
  "controllerInstances (mark c s) = controllerInstances s"
  "registeringControllers (mark c s) = insert c (registeringControllers s)"
  "started (mark c s) = started s"
  "events (mark c s) = events s"
  by (simp_all add: mark_def)

lemma Controller_fields:
  assumes "\<not> registryHas s c"
  shows "controllerRegistry (snd (Controller opts c s)) = controllerRegistry s @ [(c, opts)]"
    "loadOrderMap (snd (Controller opts c s)) =
       (loadOrderMap s)(c \<mapsto> (case loadOrder opts of None \<Rightarrow> 0 | Some n \<Rightarrow> n))"
    "controllerInstances (snd (Controller opts c s)) = controllerInstances s"
    "registeringControllers (snd (Controller opts c s)) = registeringControllers s"
    "started (snd (Controller opts c s)) = started s"
    "events (snd (Controller opts c s)) = events s"
  using assms by (simp_all add: Controller_def)

lemma registryHas_simps [simp]:
  "registryHas (observe ev s) = registryHas s"
  "registryHas (mark c s) = registryHas s"
  "registryHas (s\<lparr>started := b\<rparr>) = registryHas s"
  by (simp_all add: registryHas_def registered_def fun_eq_iff)

lemma dependenciesFirst_snoc:
  "dependenciesFirst env (evs @ [ev]) \<longleftrightarrow>
     dependenciesFirst env evs \<and>
     (\<forall>a. ev = Construct a \<longrightarrow> (\<forall>b\<in>set (dependenciesOf env a). Stored b \<in> set evs))"
proof
  assume l: "dependenciesFirst env (evs @ [ev])"
  have "dependenciesFirst env evs"
    unfolding dependenciesFirst_def
  proof (intro allI impI)
    fix pre post a b
    assume "evs = pre @ Construct a # post" "b \<in> set (dependenciesOf env a)"
    then have "evs @ [ev] = pre @ Construct a # (post @ [ev])" by simp
    with l \<open>b \<in> set (dependenciesOf env a)\<close> show "Stored b \<in> set pre"
      unfolding dependenciesFirst_def by blast
  qed
  moreover have "\<forall>a. ev = Construct a \<longrightarrow> (\<forall>b\<in>set (dependenciesOf env a). Stored b \<in> set evs)"
  proof (intro allI impI ballI)
    fix a b
    assume "ev = Construct a" "b \<in> set (dependenciesOf env a)"
    then have "evs @ [ev] = evs @ Construct a # []" by simp
    with l \<open>b \<in> set (dependenciesOf env a)\<close> show "Stored b \<in> set evs"
      unfolding dependenciesFirst_def by blast
  qed
  ultimately show "dependenciesFirst env evs \<and>
     (\<forall>a. ev = Construct a \<longrightarrow> (\<forall>b\<in>set (dependenciesOf env a). Stored b \<in> set evs))" ..
next
  assume r: "dependenciesFirst env evs \<and>
     (\<forall>a. ev = Construct a \<longrightarrow> (\<forall>b\<in>set (dependenciesOf env a). Stored b \<in> set evs))"
  show "dependenciesFirst env (evs @ [ev])"
    unfolding dependenciesFirst_def
  proof (intro allI impI)
    fix pre post a b
    assume eq: "evs @ [ev] = pre @ Construct a # post" and b: "b \<in> set (dependenciesOf env a)"
    show "Stored b \<in> set pre"
    proof (cases post rule: rev_cases)
      case Nil
      with eq have "evs = pre" "ev = Construct a" by simp_all
      with r b show ?thesis by blast
    next
      case (snoc post' x)
      with eq have "evs = pre @ Construct a # post'" by simp
      with r b show ?thesis unfolding dependenciesFirst_def by blast
    qed
  qed
qed

lemma dependenciesFirst_Nil [simp]: "dependenciesFirst env []"
  by (simp add: dependenciesFirst_def)

lemma snoc3: "xs @ a # ys @ [b] = (xs @ [a]) @ ys @ [b]"
  by simp

lemma dependenciesFirst_append_quiet:
  "dependenciesFirst env evs \<Longrightarrow> \<forall>ev\<in>set tr. \<forall>a. ev \<noteq> Construct a
     \<Longrightarrow> dependenciesFirst env (evs @ tr)"
proof (induction tr rule: rev_induct)
  case Nil
  then show ?case by simp
next
  case (snoc x xs)
  then have "dependenciesFirst env (evs @ xs)" by simp
  with snoc.prems(2) show ?case
    unfolding append_assoc[symmetric] dependenciesFirst_snoc by simp
qed

lemma tracked_create:
  assumes t: "tracked env s" and "inFlight s c"
    and deps: "list_all2 (\<lambda>d i. controllerInstances s d = Some i) (dependenciesOf env c) ds"
    and "\<forall>d\<in>set (dependenciesOf env c). registryHas s d"
    and c: "createInstance env s c ds = (r, s')"
  shows "tracked env s'"
proof -
  have before: "\<forall>b\<in>set (dependenciesOf env c). Stored b \<in> set (events s)"
  proof
    fix b assume "b \<in> set (dependenciesOf env c)"
    with deps obtain i where "controllerInstances s b = Some i"
      by (auto simp: list_all2_conv_all_nth in_set_conv_nth)
    with t show "Stored b \<in> set (events s)" by (simp add: tracked_def)
  qed
  with t have 1: "dependenciesFirst env (events s @ [Construct c])"
    by (simp add: dependenciesFirst_snoc tracked_def)
  from c show ?thesis
  proof (cases rule: createInstance_cases)
    case (ok tr)
    have "dependenciesFirst env ((events s @ [Construct c]) @ tr @ [Stored c])"
      by (rule dependenciesFirst_append_quiet[OF 1]) (use ok(5) in auto)
    with t ok show ?thesis by (auto simp: tracked_def)
  next
    case (fail e tr msg)
    from fail(5) obtain tr' where tr': "tr = Construct c # tr'" "\<forall>ev\<in>set tr'. \<forall>a. ev \<noteq> Construct a"
      by auto
    have "dependenciesFirst env ((events s @ [Construct c]) @ tr' @ [Console Err msg (Some (Thrown e)) None])"
      by (rule dependenciesFirst_append_quiet[OF 1]) (use tr'(2) in auto)
    with t fail tr' show ?thesis by (auto simp: tracked_def)
  qed
qed

lemma quiet_not_Construct: "quiet ev \<Longrightarrow> ev \<noteq> Construct a"
  by (cases ev) auto

lemma tracked_mark:
  "tracked env s \<Longrightarrow> controllerInstances s c = None \<Longrightarrow> c \<notin> registeringControllers s
     \<Longrightarrow> tracked env (mark c s)"
  by (simp add: tracked_def)

lemma tracked_observe: "tracked env s \<Longrightarrow> quiet ev \<Longrightarrow> tracked env (observe ev s)"
  by (auto simp: tracked_def dependenciesFirst_snoc quiet_not_Construct)

lemma tracked_started: "tracked env s \<Longrightarrow> tracked env (s\<lparr>started := True\<rparr>)"
  by (simp add: tracked_def)

lemma tracked_declare:
  "tracked env s \<Longrightarrow> \<not> registryHas s c \<Longrightarrow> tracked env (snd (Controller opts c s))"
  by (simp add: tracked_def Controller_fields)

lemma run_tracked:
  assumes "tracked env st"
  shows "tracked env (run env calls st)"
  by (rule run_invariant[where I=tracked, OF _ _ _ _ _ assms];
      fact tracked_mark tracked_create tracked_observe tracked_started tracked_declare)

lemma tracked_initial: "tracked env initial"
  by (simp add: tracked_def initial_def)

lemma sound_mark:
  "sound env s \<Longrightarrow> controllerInstances s c = None \<Longrightarrow> c \<notin> registeringControllers s
     \<Longrightarrow> sound env (mark c s)"
  by (simp add: sound_def)

lemma sound_observe: "sound env s \<Longrightarrow> quiet ev \<Longrightarrow> sound env (observe ev s)"
  by (simp add: sound_def)

lemma sound_started: "sound env s \<Longrightarrow> sound env (s\<lparr>started := True\<rparr>)"
  by (simp add: sound_def)

lemma sound_declare:
  "sound env s \<Longrightarrow> \<not> registryHas s c \<Longrightarrow> sound env (snd (Controller opts c s))"
  by (simp add: sound_def Controller_fields)

lemma sound_create:
  assumes t: "sound env s" and f: "inFlight s c"
    and deps: "list_all2 (\<lambda>d i. controllerInstances s d = Some i) (dependenciesOf env c) ds"
    and "\<forall>d\<in>set (dependenciesOf env c). registryHas s d"
    and c: "createInstance env s c ds = (r, s')"
  shows "sound env s'"
proof -
  have ds: "map classOf ds = dependenciesOf env c" "\<forall>d\<in>set ds. wellFormed env d"
    "\<forall>d\<in>set (dependenciesOf env c). controllerInstances s d \<noteq> None"
  proof -
    from deps have len: "length ds = length (dependenciesOf env c)"
      and nth: "\<And>k. k < length ds \<Longrightarrow> controllerInstances s (dependenciesOf env c ! k) = Some (ds ! k)"
      by (simp_all add: list_all2_conv_all_nth)
    show "map classOf ds = dependenciesOf env c"
      using len nth t by (intro nth_equalityI) (auto simp: sound_def)
    show "\<forall>d\<in>set ds. wellFormed env d"
    proof
      fix d assume "d \<in> set ds"
      then obtain k where "k < length ds" "ds ! k = d" by (auto simp: in_set_conv_nth)
      with nth[of k] have "controllerInstances s (dependenciesOf env c ! k) = Some d" by simp
      with t show "wellFormed env d" unfolding sound_def by blast
    qed
    show "\<forall>d\<in>set (dependenciesOf env c). controllerInstances s d \<noteq> None"
      using len nth by (auto simp: in_set_conv_nth)
  qed
  from c show ?thesis
  proof (cases rule: createInstance_cases)
    case (ok tr)
    with t ds show ?thesis by (auto simp: sound_def)
  next
    case (fail e tr msg)
    with t show ?thesis by (simp add: sound_def)
  qed
qed

lemma run_sound:
  assumes "sound env st"
  shows "sound env (run env calls st)"
  by (rule run_invariant[where I=sound, OF _ _ _ _ _ assms];
      fact sound_mark sound_create sound_observe sound_started sound_declare)

lemma sound_initial: "sound env initial"
  by (simp add: sound_def initial_def)

lemma vetted_mark:
  "vetted env s \<Longrightarrow> controllerInstances s c = None \<Longrightarrow> c \<notin> registeringControllers s
     \<Longrightarrow> vetted env (mark c s)"
  by (simp add: vetted_def)

lemma vetted_observe: "vetted env s \<Longrightarrow> quiet ev \<Longrightarrow> vetted env (observe ev s)"
  by (auto simp: vetted_def quiet_not_Construct)

lemma vetted_started: "vetted env s \<Longrightarrow> vetted env (s\<lparr>started := True\<rparr>)"
  by (simp add: vetted_def)

lemma vetted_declare:
  "vetted env s \<Longrightarrow> \<not> registryHas s c \<Longrightarrow> vetted env (snd (Controller opts c s))"
  by (auto simp: vetted_def Controller_fields registryHas_def registered_def)

lemma vetted_create:
  assumes t: "vetted env s" and f: "inFlight s c"
    and deps: "list_all2 (\<lambda>d i. controllerInstances s d = Some i) (dependenciesOf env c) ds"
    and reg: "\<forall>d\<in>set (dependenciesOf env c). registryHas s d"
    and c: "createInstance env s c ds = (r, s')"
  shows "vetted env s'"
  using c
proof (cases rule: createInstance_cases)
  case (ok tr)
  with t reg show ?thesis by (auto simp: vetted_def registryHas_def registered_def)
next
  case (fail e tr msg)
  with t reg show ?thesis by (auto simp: vetted_def registryHas_def registered_def)
qed

lemma run_vetted:
  assumes "vetted env st"
  shows "vetted env (run env calls st)"
  by (rule run_invariant[where I=vetted, OF _ _ _ _ _ assms];
      fact vetted_mark vetted_create vetted_observe vetted_started vetted_declare)

lemma vetted_initial: "vetted env initial"
  by (simp add: vetted_def initial_def)

lemma run_snoc_Start:
  assumes "Start env (run env calls st) = Some (r, st')"
  shows "run env (calls @ [RunLifecycle]) st = st'"
  using assms
proof (induction calls arbitrary: st)
  case Nil
  then show ?case by simp
next
  case (Cons call calls)
  show ?case
  proof (cases call)
    case (Declare opts c)
    with Cons show ?thesis by simp
  next
    case RunLifecycle
    obtain r1 s1 where "Start env st = Some (r1, s1)" using Start_total by blast
    with Cons RunLifecycle show ?thesis by simp
  qed
qed

text \<open>cycles\<close>

lemma wellFormed_not_cyclic:
  assumes cyc: "a \<in> set (dependenciesOf env a) \<or>
      (b \<in> set (dependenciesOf env a) \<and> a \<in> set (dependenciesOf env b))"
  shows "wellFormed env i \<Longrightarrow> classOf i \<noteq> a \<and> (a \<notin> set (dependenciesOf env a) \<longrightarrow> classOf i \<noteq> b)"
proof (induction i)
  case (Instance c ds)
  have sub: "\<And>x. x \<in> set (dependenciesOf env c) \<Longrightarrow> \<exists>d\<in>set ds. classOf d = x \<and> wellFormed env d"
  proof -
    fix x assume x: "x \<in> set (dependenciesOf env c)"
    from Instance.prems have "map classOf ds = dependenciesOf env c" by simp
    then have "set (dependenciesOf env c) = classOf ` set ds" by (metis set_map)
    with x obtain d where "d \<in> set ds" "classOf d = x" by auto
    with Instance.prems show "\<exists>d\<in>set ds. classOf d = x \<and> wellFormed env d" by auto
  qed
  show ?case
  proof (intro conjI impI notI)
    assume "classOf (Instance c ds) = a"
    then have c: "c = a" by simp
    from cyc show False
    proof
      assume "a \<in> set (dependenciesOf env a)"
      with sub c obtain d where "d \<in> set ds" "classOf d = a" "wellFormed env d" by blast
      with Instance.IH show False by blast
    next
      assume m: "b \<in> set (dependenciesOf env a) \<and> a \<in> set (dependenciesOf env b)"
      show False
      proof (cases "a \<in> set (dependenciesOf env a)")
        case True
        with sub c obtain d where "d \<in> set ds" "classOf d = a" "wellFormed env d" by blast
        with Instance.IH show False by blast
      next
        case False
        from m sub c obtain d where "d \<in> set ds" "classOf d = b" "wellFormed env d" by blast
        with Instance.IH False show False by blast
      qed
    qed
  next
    assume na: "a \<notin> set (dependenciesOf env a)" and "classOf (Instance c ds) = b"
    then have c: "c = b" by simp
    from cyc na have "a \<in> set (dependenciesOf env b)" by blast
    with sub c obtain d where "d \<in> set ds" "classOf d = a" "wellFormed env d" by blast
    with Instance.IH show False by blast
  qed
qed

subsection \<open>The flag \<open>started\<close>\<close>

lemma started_frame: "frame s s' \<Longrightarrow> started s' = started s"
  by (simp add: frame_def)

lemma startPhase_fields:
  assumes "startPhase env st cs = (r, st')"
  shows "controllerRegistry st' = controllerRegistry st \<and> loadOrderMap st' = loadOrderMap st \<and>
     controllerInstances st' = controllerInstances st \<and>
     registeringControllers st' = registeringControllers st \<and> started st' = started st"
  by (rule startPhase_rel[where R="\<lambda>_ s s'. controllerRegistry s' = controllerRegistry s \<and> loadOrderMap s' = loadOrderMap s \<and>
     controllerInstances s' = controllerInstances s \<and>
     registeringControllers s' = registeringControllers s \<and> started s' = started s", OF _ _ _ assms]) simp_all

lemma Start_started:
  assumes "Start env st = Some (r, st')"
  shows "started st'"
  using assms
proof (cases rule: Start_cases)
  case (halted e)
  from registerAll_frame[OF halted(2)] show ?thesis by (simp add: frame_def starting_fields)
next
  case (completed u st2)
  from registerAll_frame[OF completed(1)] startPhase_fields[OF completed(2)]
  show ?thesis by (simp add: frame_def starting_fields)
qed

lemma Controller_started: "started (snd (Controller opts c st)) = started st"
  by (simp add: Controller_def)

lemma run_started:
  "started (run env calls st) \<longleftrightarrow> started st \<or> RunLifecycle \<in> set calls"
proof (induction calls arbitrary: st)
  case Nil
  then show ?case by simp
next
  case (Cons call calls)
  show ?case
  proof (cases call)
    case (Declare opts c)
    with Cons show ?thesis by (simp add: Controller_started)
  next
    case RunLifecycle
    obtain r s1 where s: "Start env st = Some (r, s1)" using Start_total by blast
    with Cons[of s1] Start_started[OF s] RunLifecycle show ?thesis by simp
  qed
qed

subsection \<open>What runs preserve\<close>

lemma run_reaches:
  "tracked env (run env calls initial)" "sound env (run env calls initial)"
  "vetted env (run env calls initial)"
  by (simp_all add: run_tracked tracked_initial run_sound sound_initial run_vetted vetted_initial)

lemma Start_reaches:
  assumes "Start env (run env calls initial) = Some (r, st')"
  shows "tracked env st'" "sound env st'" "vetted env st'"
  using run_reaches[of env "calls @ [RunLifecycle]"] run_snoc_Start[OF assms] by simp_all


lemma Start_Inr_all:
  assumes "Start env st = Some (Inr u, st')"
  shows "\<forall>c\<in>set (registered st). controllerInstances st' c \<noteq> None"
  using assms
proof (cases rule: Start_cases)
  case (completed u' st2)
  from registerAll_Inr[OF completed(1)] startPhase_fields[OF completed(2)]
  show ?thesis by (simp add: sortedControllers_def)
qed simp

subsection \<open>Cycles and the cause of a failure\<close>

lemma sound_no_cycle:
  assumes "sound env st" "onCycle env c"
  shows "controllerInstances st c = None"
proof (rule ccontr)
  assume "controllerInstances st c \<noteq> None"
  then obtain i where i: "controllerInstances st c = Some i" by auto
  with assms(1) have wf: "classOf i = c" "wellFormed env i" by (simp_all add: sound_def)
  from assms(2) obtain d where
    "c \<in> set (dependenciesOf env c) \<or> (d \<in> set (dependenciesOf env c) \<and> c \<in> set (dependenciesOf env d))"
    unfolding onCycle_def by blast
  from wellFormed_not_cyclic[OF this wf(2)] wf(1) show False by simp
qed

lemma neverThrows_raisedBy: "neverThrows env \<Longrightarrow> \<not> raisedBy env c x"
  unfolding neverThrows_def raisedBy_def by (metis option.distinct(1))

lemma dependenciesDeclared_frame:
  "controllerRegistry s' = controllerRegistry s \<Longrightarrow> dependenciesDeclared env s' = dependenciesDeclared env s"
  by (simp add: dependenciesDeclared_def registryHas_def registered_def)

lemma register_error_cyclic:
  "registerController env n st c = Some (Inl e, st') \<Longrightarrow> neverThrows env
     \<Longrightarrow> dependenciesDeclared env st \<Longrightarrow> registryHas st c
     \<Longrightarrow> e = AppLifeError ''Cyclic dependency detected''"
  "resolveDependencies env n st ds acc = Some (Inl e, st') \<Longrightarrow> neverThrows env
     \<Longrightarrow> dependenciesDeclared env st \<Longrightarrow> \<forall>d\<in>set ds. registryHas st d
     \<Longrightarrow> e = AppLifeError ''Cyclic dependency detected''"
proof (induction env n st c and env n st ds acc arbitrary: e st' and e st'
    rule: registerController_resolveDependencies.induct)
  case (1 env st c)
  then show ?case by simp
next
  case (2 env n st c)
  have dd: "dependenciesDeclared env (mark c st)"
    using "2.prems"(3) dependenciesDeclared_frame[of "mark c st" st env] by simp
  have reg: "\<forall>d\<in>set (dependenciesOf env c). registryHas (mark c st) d"
    using "2.prems"(3,4) by (simp add: dependenciesDeclared_def registryHas_def)
  from "2.prems"(1) show ?case
  proof (cases rule: registerController_Suc_cases)
    case (depfail e')
    with "2.IH"[OF depfail(1,2) _ "2.prems"(2) dd reg] show ?thesis by simp
  next
    case (create ds st1)
    from create(4) show ?thesis
    proof (cases rule: createInstance_cases)
      case (fail x tr msg)
      with neverThrows_raisedBy[OF "2.prems"(2)] show ?thesis by blast
    qed simp
  qed simp_all
next
  case (3 env n st dependencies)
  then show ?case by simp
next
  case (4 env n st dep rest dependencies)
  from "4.prems"(1) show ?case
  proof (cases rule: resolveDependencies_Cons_cases)
    case unknown
    with "4.prems"(4) show ?thesis by simp
  next
    case (depfail e')
    with "4.IH"(1) "4.prems" show ?thesis by simp
  next
    case (continue i st1)
    from register_frame(1)[OF continue(2)]
    have fr: "controllerRegistry st1 = controllerRegistry st" by (simp add: frame_def)
    then have "dependenciesDeclared env st1" "\<forall>d\<in>set rest. registryHas st1 d"
      using "4.prems"(3,4) dependenciesDeclared_frame[of st1 st env]
      by (simp_all add: registryHas_def registered_def)
    with "4.IH"(2)[OF _ continue(2) HOL.refl HOL.refl continue(3) "4.prems"(2)] continue(1)
    show ?thesis by simp
  qed
qed

lemma Start_error_cyclic:
  assumes "Start env st = Some (Inl e, st')" "neverThrows env" "dependenciesDeclared env st"
  shows "e = AppLifeError ''Cyclic dependency detected''"
  using assms(1)
proof (cases rule: Start_cases)
  case (halted e')
  from registerAll_Inl[OF halted(2)[unfolded halted(1)[symmetric]]] halted(1)
  obtain c s where c: "c \<in> set (sortedControllers st)" "frame (starting st) s"
    "registerController env (Suc (length (controllerRegistry st))) s c = Some (Inl e, st')"
    by auto
  from c(2) have reg: "controllerRegistry s = controllerRegistry st"
    by (simp add: frame_def starting_fields)
  then have "dependenciesDeclared env s"
    using assms(3) dependenciesDeclared_frame[of s st env] by simp
  moreover have "registryHas s c" using c(1) reg
    by (simp add: sortedControllers_def registryHas_def registered_def)
  ultimately show ?thesis using register_error_cyclic(1)[OF c(3) assms(2)] by simp
next
  case (completed u st2)
  from startPhase_returns[of env st2 "sortedControllers st"] completed(2) show ?thesis by auto
qed

subsection \<open>The loop over the parameter types, in two parts\<close>


subsection \<open>A stale mark stays\<close>

lemma registerAll_inFlight:
  "registerAll env n st cs = Some (r, st') \<Longrightarrow> inFlight st x \<Longrightarrow> inFlight st' x"
proof (induction cs arbitrary: st)
  case Nil
  then show ?case by simp
next
  case (Cons c cs)
  from Cons.prems(1) obtain y s1 where y: "registerController env n st c = Some (y, s1)"
    by (auto split: option.splits)
  from inFlight_preserved(1)[OF y Cons.prems(2)] have 1: "inFlight s1 x" .
  show ?case
  proof (cases y)
    case (Inl e)
    with y Cons.prems(1) 1 show ?thesis by simp
  next
    case (Inr i)
    with y Cons.prems(1) have "registerAll env n s1 cs = Some (r, st')" by simp
    from Cons.IH[OF this 1] show ?thesis .
  qed
qed

lemma Start_inFlight:
  assumes "Start env st = Some (r, st')" "inFlight st x"
  shows "inFlight st' x"
proof -
  have 0: "inFlight (starting st) x" using assms(2) by (simp add: inFlight_def starting_fields)
  from assms(1) show ?thesis
  proof (cases rule: Start_cases)
    case (halted e)
    from registerAll_inFlight[OF halted(2) 0] show ?thesis .
  next
    case (completed u st2)
    from registerAll_inFlight[OF completed(1) 0] startPhase_fields[OF completed(2)]
    show ?thesis by (simp add: inFlight_def)
  qed
qed

lemma later_inFlight:
  assumes "later env st s" "inFlight st x"
  shows "inFlight s x"
  using assms
proof (induction rule: later.induct)
  case here
  then show ?case by simp
next
  case (registers s n c r s')
  then show ?case by (blast intro: inFlight_preserved(1))
next
  case (resolves s n ds acc rs s')
  then show ?case by (blast intro: inFlight_preserved(2))
next
  case (marks s c)
  then show ?case by (simp add: inFlight_def)
next
  case (declares s opts c)
  then show ?case by (simp add: inFlight_def Controller_def)
next
  case (starts s r s')
  then show ?case by (blast intro: Start_inFlight)
qed

subsection \<open>What the events tell about the result\<close>

lemma startCalls_append: "startCalls (xs @ ys) = startCalls xs @ startCalls ys"
  by (induction xs rule: startCalls.induct) simp_all

lemma haltedBy_prepend:
  assumes "haltedBy env tr x f" "\<forall>ev\<in>set tr1. \<not> isErr ev"
  shows "haltedBy env (tr1 @ tr) x f"
proof -
  from assms(1) obtain pre where pre: "raisedBy env f x" "\<forall>ev\<in>set pre. \<not> isErr ev"
    "tr = pre @ [Construct f, Console Err ''Error in constructor:'' (Some (Thrown x)) None] \<or>
     tr = pre @ [Construct f, Init f, Console Err ''Error in OnInit:'' (Some (Thrown x)) None]"
    unfolding haltedBy_def by blast
  from pre(2) assms(2) have "\<forall>ev\<in>set (tr1 @ pre). \<not> isErr ev" by auto
  moreover from pre(3) have
    "tr1 @ tr = (tr1 @ pre) @ [Construct f, Console Err ''Error in constructor:'' (Some (Thrown x)) None] \<or>
     tr1 @ tr = (tr1 @ pre) @ [Construct f, Init f, Console Err ''Error in OnInit:'' (Some (Thrown x)) None]"
    by auto
  ultimately show ?thesis using pre(1) unfolding haltedBy_def by blast
qed

lemma reported_same: "\<forall>x. r \<noteq> Inl (Thrown x) \<Longrightarrow> reported env r s s"
  by (simp add: reported_def)

lemma reported_seq:
  assumes "reported env r1 s s1" "reported env r s1 s'" "\<forall>x. r1 \<noteq> Inl (Thrown x)"
  shows "reported env r s s'"
proof -
  from assms(1,3) obtain tr1 where 1: "events s1 = events s @ tr1" "startCalls tr1 = []"
    "\<forall>ev\<in>set tr1. \<not> isErr ev"
    unfolding reported_def by blast
  from assms(2) obtain tr2 where 2: "events s' = events s1 @ tr2" "startCalls tr2 = []"
    "\<forall>x. r = Inl (Thrown x) \<longrightarrow> (\<exists>f. haltedBy env tr2 x f \<and> inFlight s' f)"
    "(\<forall>x. r \<noteq> Inl (Thrown x)) \<longrightarrow> (\<forall>ev\<in>set tr2. \<not> isErr ev)"
    unfolding reported_def by blast
  have "events s' = events s @ (tr1 @ tr2)" using 1(1) 2(1) by simp
  moreover have "startCalls (tr1 @ tr2) = []" using 1(2) 2(2) by (simp add: startCalls_append)
  moreover have "\<forall>x. r = Inl (Thrown x) \<longrightarrow> (\<exists>f. haltedBy env (tr1 @ tr2) x f \<and> inFlight s' f)"
    using 2(3) 1(3) by (blast intro: haltedBy_prepend)
  moreover have "(\<forall>x. r \<noteq> Inl (Thrown x)) \<longrightarrow> (\<forall>ev\<in>set (tr1 @ tr2). \<not> isErr ev)"
    using 2(4) 1(3) by auto
  ultimately show ?thesis unfolding reported_def by blast
qed

lemma reported_mark: "reported env r (mark c s) s' \<Longrightarrow> reported env r s s'"
  by (simp add: reported_def)

lemma reported_Inl_retype:
  "reported env r1 s s' \<Longrightarrow> r1 = Inl e \<Longrightarrow> r2 = Inl e \<Longrightarrow> reported env r2 s s'"
  by (simp add: reported_def)

lemma reported_createInstance:
  assumes "inFlight s c" "createInstance env s c ds = (r, s')"
  shows "reported env r s s'"
  using assms(2)
proof (cases rule: createInstance_cases)
  case (ok tr)
  let ?tr = "Construct c # tr @ [Stored c]"
  have "events s' = events s @ ?tr" using ok(4) by simp
  moreover have "startCalls ?tr = []" using ok(5) by auto
  moreover have "\<forall>ev\<in>set ?tr. \<not> isErr ev" using ok(5) by auto
  moreover have "\<forall>x. r \<noteq> Inl (Thrown x)" using ok(1) by simp
  ultimately have "events s' = events s @ ?tr \<and> startCalls ?tr = [] \<and>
        (\<forall>x. r = Inl (Thrown x) \<longrightarrow> (\<exists>f. haltedBy env ?tr x f \<and> inFlight s' f)) \<and>
        ((\<forall>x. r \<noteq> Inl (Thrown x)) \<longrightarrow> (\<forall>ev\<in>set ?tr. \<not> isErr ev))"
    by simp
  then show ?thesis unfolding reported_def by (rule exI)
next
  case (fail e tr msg)
  let ?tr = "tr @ [Console Err msg (Some (Thrown e)) None]"
  from assms(1) fail(2,3) have "inFlight s' c" by (simp add: inFlight_def)
  moreover have "haltedBy env ?tr e c"
    unfolding haltedBy_def
  proof (intro conjI exI[of _ "[]"])
    show "raisedBy env c e" by (rule fail(9))
    show "\<forall>ev\<in>set []. \<not> isErr ev" by simp
    show "?tr = [] @ [Construct c, Console Err ''Error in constructor:'' (Some (Thrown e)) None] \<or>
          ?tr = [] @ [Construct c, Init c, Console Err ''Error in OnInit:'' (Some (Thrown e)) None]"
      using fail(5) by auto
  qed
  ultimately have "\<exists>f. haltedBy env ?tr e f \<and> inFlight s' f" by blast
  moreover have "startCalls ?tr = []" using fail(5) by auto
  moreover have "events s' = events s @ ?tr" by (rule fail(4))
  ultimately have "events s' = events s @ ?tr \<and> startCalls ?tr = [] \<and>
        (\<forall>x. r = Inl (Thrown x) \<longrightarrow> (\<exists>f. haltedBy env ?tr x f \<and> inFlight s' f)) \<and>
        ((\<forall>x. r \<noteq> Inl (Thrown x)) \<longrightarrow> (\<forall>ev\<in>set ?tr. \<not> isErr ev))"
    using fail(1) by simp
  then show ?thesis unfolding reported_def by (rule exI)
qed

lemma AppLifeError_not_Thrown: "AppLifeError m \<noteq> Thrown x"
  by (simp add: AppLifeError_def)

lemma register_reported:
  "registerController env n st c = Some (r, st') \<Longrightarrow> reported env r st st'"
  "resolveDependencies env n st ds acc = Some (rs, st') \<Longrightarrow> reported env rs st st'"
proof (induction env n st c and env n st ds acc arbitrary: r st' and rs st'
    rule: registerController_resolveDependencies.induct)
  case (1 env st c)
  then show ?case by simp
next
  case (2 env n st c)
  from "2.prems"(1) show ?case
  proof (cases rule: registerController_Suc_cases)
    case (cached i)
    then show ?thesis by (simp add: reported_same)
  next
    case cyclic
    then show ?thesis by (simp add: reported_same AppLifeError_not_Thrown)
  next
    case (depfail e)
    from "2.IH"[OF depfail(1,2) depfail(3)] HOL.refl depfail(4)
    have "reported env r (mark c st) st'" by (rule reported_Inl_retype)
    then show ?thesis by (rule reported_mark)
  next
    case (create ds st1)
    have "inFlight (mark c st) c" using create(1) by (simp add: inFlight_def)
    then have "inFlight st1 c" by (rule inFlight_preserved(2)[OF create(3)])
    then have 2: "reported env r st1 st'" using create(4) by (rule reported_createInstance)
    from "2.IH"[OF create(1,2) create(3)]
    have "reported env (Inr ds) st st1" by (rule reported_mark)
    then show ?thesis using 2 by (rule reported_seq) simp
  qed
next
  case (3 env n st dependencies)
  then show ?case by (auto simp: reported_same)
next
  case (4 env n st dep rest dependencies)
  from "4.prems"(1) show ?case
  proof (cases rule: resolveDependencies_Cons_cases)
    case unknown
    then show ?thesis by (simp add: reported_same AppLifeError_not_Thrown)
  next
    case (depfail e)
    from depfail(1) have "\<not> \<not> registryHas st dep" by simp
    from "4.IH"(1)[OF this depfail(2)] HOL.refl depfail(3)
    show ?thesis by (rule reported_Inl_retype)
  next
    case (continue i st1)
    with "4.IH"(1) have "reported env (Inr i) st st1" by simp
    moreover have "reported env rs st1 st'"
      using "4.IH"(2)[OF _ continue(2) HOL.refl HOL.refl continue(3)] continue(1) by simp
    ultimately show ?thesis by (rule reported_seq) simp
  qed
qed

lemma registerAll_reported:
  "registerAll env n st cs = Some (r, st') \<Longrightarrow> reported env r st st'"
proof (induction cs arbitrary: st)
  case Nil
  then show ?case by (auto simp: reported_same)
next
  case (Cons c cs)
  from Cons.prems obtain y s1 where y: "registerController env n st c = Some (y, s1)"
    by (auto split: option.splits)
  show ?case
  proof (cases y)
    case (Inl e)
    with y Cons.prems have r: "r = Inl e" "st' = s1" by simp_all
    from register_reported(1)[OF y] Inl r(1) show ?thesis
      unfolding r(2) by (rule reported_Inl_retype)
  next
    case (Inr i)
    with y Cons.prems have "registerAll env n s1 cs = Some (r, st')" by simp
    then have 2: "reported env r s1 st'" by (rule Cons.IH)
    from register_reported(1)[OF y] Inr
    have "reported env (Inr i) st s1" by simp
    then show ?thesis using 2 by (rule reported_seq) simp
  qed
qed




lemma starting_events:
  "\<exists>w. events (starting st) = events st @ w \<and> (\<forall>ev\<in>set w. \<not> isErr ev) \<and>
       startCalls w = [] \<and> constructed w = [] \<and> initCalls w = [] \<and> stores w = []"
proof (cases "controllerRegistry st = []")
  case True
  let ?w = "[Console Warn ''No controllers registered'' None None :: ('a, 'b) event]"
  from True have "events (starting st) = events st @ ?w \<and> (\<forall>ev\<in>set ?w. \<not> isErr ev) \<and>
       startCalls ?w = [] \<and> constructed ?w = [] \<and> initCalls ?w = [] \<and> stores ?w = []"
    by (simp add: starting_def DebugLog_def)
  then show ?thesis by (rule exI)
next
  case False
  let ?w = "[] :: ('a, 'b) event list"
  from False have "events (starting st) = events st @ ?w \<and> (\<forall>ev\<in>set ?w. \<not> isErr ev) \<and>
       startCalls ?w = [] \<and> constructed ?w = [] \<and> initCalls ?w = [] \<and> stores ?w = []"
    by (simp add: starting_def)
  then show ?thesis by (rule exI)
qed

lemma newEvents_append: "events s' = events s @ tr \<Longrightarrow> newEvents s s' = tr"
  by (simp add: newEvents_def)

lemma constructed_append: "constructed (xs @ ys) = constructed xs @ constructed ys"
  by (induction xs rule: constructed.induct) simp_all

lemma haltedBy_constructed: "haltedBy env tr x f \<Longrightarrow> constructed tr \<noteq> []"
  by (auto simp: haltedBy_def constructed_append)


subsection \<open>The start phase\<close>

lemma split_after:
  assumes "xs @ ys = b @ e # a" "e \<notin> set xs"
  shows "\<exists>b'. b = xs @ b' \<and> ys = b' @ e # a"
proof -
  from assms(1) obtain us where
    "(xs = b @ us \<and> us @ ys = e # a) \<or> (xs @ us = b \<and> ys = us @ e # a)"
    by (auto simp: append_eq_append_conv2)
  then show ?thesis
  proof
    assume l: "xs = b @ us \<and> us @ ys = e # a"
    show ?thesis
    proof (cases us)
      case Nil
      with l show ?thesis by simp
    next
      case (Cons u us')
      with l have "e \<in> set xs" by simp
      with assms(2) show ?thesis ..
    qed
  next
    assume "xs @ us = b \<and> ys = us @ e # a"
    then show ?thesis by blast
  qed
qed

lemma split_before:
  assumes "ys @ ws = b @ e # a" "e \<notin> set ws"
  shows "\<exists>a'. a = a' @ ws \<and> ys = b @ e # a'"
proof -
  from assms(1) obtain us where
    "(ys = b @ us \<and> us @ ws = e # a) \<or> (ys @ us = b \<and> ws = us @ e # a)"
    by (auto simp: append_eq_append_conv2)
  then show ?thesis
  proof
    assume l: "ys = b @ us \<and> us @ ws = e # a"
    show ?thesis
    proof (cases us)
      case Nil
      with l have "e \<in> set ws" by simp
      with assms(2) show ?thesis ..
    next
      case (Cons u us')
      with l show ?thesis by simp
    qed
  next
    assume "ys @ us = b \<and> ws = us @ e # a"
    then have "e \<in> set ws" by simp
    with assms(2) show ?thesis ..
  qed
qed

lemma startHooks_keeps: "startHooks env s ds qs = (qs', s') \<Longrightarrow> set qs \<subseteq> set qs'"
proof (induction ds arbitrary: s qs)
  case Nil
  then show ?case by simp
next
  case (Cons d ds)
  show ?case
  proof (cases "onStartMethod env d")
    case None
    with Cons show ?thesis by simp
  next
    case (Some h)
    show ?thesis
    proof (cases "controllerInstances s d")
      case None
      with Some Cons.prems have "startHooks env s ds (qs @ [(Some TypeError, None)]) = (qs', s')"
        by simp
      from Cons.IH[OF this] show ?thesis by simp
    next
      case (Some i)
      with \<open>onStartMethod env d = Some h\<close> Cons.prems
      have "startHooks env (observe (StartHook d) s) ds
              (qs @ [(map_option Thrown (h i (observe (StartHook d) s)), Some i)]) = (qs', s')"
        by (simp add: Let_def)
      from Cons.IH[OF this] show ?thesis by simp
    qed
  qed
qed

lemma startHooks_run:
  "startHooks env st cs ps = (ps', st') \<Longrightarrow>
     st' = st\<lparr>events := events st @ map StartHook
              [c \<leftarrow> cs. onStartMethod env c \<noteq> None \<and> controllerInstances st c \<noteq> None]\<rparr> \<and>
     (\<forall>pre c post.
        [c \<leftarrow> cs. onStartMethod env c \<noteq> None \<and> controllerInstances st c \<noteq> None] = pre @ c # post \<longrightarrow>
        (\<exists>h i. onStartMethod env c = Some h \<and> controllerInstances st c = Some i \<and>
           (map_option Thrown (h i (st\<lparr>events := events st @ map StartHook pre @ [StartHook c]\<rparr>)),
            Some i) \<in> set ps'))"
proof (induction cs arbitrary: st ps)
  case Nil
  then show ?case by simp
next
  case (Cons d cs)
  let ?hs = "\<lambda>s ds. [c \<leftarrow> ds. onStartMethod env c \<noteq> None \<and> controllerInstances s c \<noteq> None]"
  show ?case
  proof (cases "onStartMethod env d \<noteq> None \<and> controllerInstances st d \<noteq> None")
    case False
    then have "startHooks env st cs ps = (ps', st') \<or>
        startHooks env st cs (ps @ [(Some TypeError, None)]) = (ps', st')"
      using Cons.prems by (auto split: option.splits)
    moreover from False have "?hs st (d # cs) = ?hs st cs" by auto
    ultimately show ?thesis using Cons.IH[of st ps] Cons.IH[of st "ps @ [(Some TypeError, None)]"]
      by auto
  next
    case True
    then obtain h i where hi: "onStartMethod env d = Some h" "controllerInstances st d = Some i"
      by auto
    let ?st1 = "observe (StartHook d) st"
    let ?p = "(map_option Thrown (h i ?st1), Some i)"
    from hi Cons.prems have rest: "startHooks env ?st1 cs (ps @ [?p]) = (ps', st')"
      by (simp add: Let_def)
    have same: "?hs ?st1 cs = ?hs st cs" by (simp add: observe_def)
    have hs: "?hs st (d # cs) = d # ?hs st cs" using True by simp
    from Cons.IH[OF rest] have ih:
      "st' = ?st1\<lparr>events := events ?st1 @ map StartHook (?hs st cs)\<rparr>"
      "\<And>pre c post. ?hs st cs = pre @ c # post \<Longrightarrow>
        (\<exists>h i. onStartMethod env c = Some h \<and> controllerInstances ?st1 c = Some i \<and>
           (map_option Thrown (h i (?st1\<lparr>events := events ?st1 @ map StartHook pre @ [StartHook c]\<rparr>)),
            Some i) \<in> set ps')"
      unfolding same by blast+
    have mono: "?p \<in> set ps'" using startHooks_keeps[OF rest] by auto
    have 1: "st' = st\<lparr>events := events st @ map StartHook (d # ?hs st cs)\<rparr>"
      using ih(1) by (simp add: observe_def)
    have 2: "\<forall>pre c post. d # ?hs st cs = pre @ c # post \<longrightarrow>
        (\<exists>h i. onStartMethod env c = Some h \<and> controllerInstances st c = Some i \<and>
           (map_option Thrown (h i (st\<lparr>events := events st @ map StartHook pre @ [StartHook c]\<rparr>)),
            Some i) \<in> set ps')"
    proof (intro allI impI)
      fix pre c post
      assume eq: "d # ?hs st cs = pre @ c # post"
      show "\<exists>h i. onStartMethod env c = Some h \<and> controllerInstances st c = Some i \<and>
           (map_option Thrown (h i (st\<lparr>events := events st @ map StartHook pre @ [StartHook c]\<rparr>)),
            Some i) \<in> set ps'"
      proof (cases pre)
        case Nil
        with eq have "c = d" by simp
        with Nil hi mono show ?thesis by (simp add: observe_def)
      next
        case (Cons x pre')
        with eq have "x = d" "?hs st cs = pre' @ c # post" by simp_all
        from ih(2)[OF this(2)] Cons \<open>x = d\<close> show ?thesis
          by (simp add: observe_def)
      qed
    qed
    from 1 2 show ?thesis unfolding hs by blast
  qed
qed

lemma catchAll_run:
  "catchAll st ps = (rs, st') \<Longrightarrow>
     \<exists>ws. st' = st\<lparr>events := events st @ ws\<rparr> \<and>
       (\<forall>ev\<in>set ws. \<exists>e i. ev = Console Warn ''Error in OnStart:'' (Some e) i) \<and>
       (\<forall>e i. (Some e, i) \<in> set ps \<longrightarrow> Console Warn ''Error in OnStart:'' (Some e) i \<in> set ws)"
proof (induction st ps arbitrary: rs st' rule: catchAll.induct)
  case (1 st)
  then have "st' = st\<lparr>events := events st @ []\<rparr>" by simp
  then show ?case by (intro exI[of _ "[]"]) simp
next
  case (2 st inst ps)
  then obtain rs' where "catchAll st ps = (rs', st')" by (auto split: prod.splits)
  from "2.IH"[OF this] show ?case by auto
next
  case (3 st e inst ps)
  let ?w = "Console Warn ''Error in OnStart:'' (Some e) inst"
  let ?s = "DebugLog Warn ''Error in OnStart:'' (Some e) inst st"
  from "3.prems" obtain rs' where "catchAll ?s ps = (rs', st')"
    by (auto split: prod.splits)
  from "3.IH"[OF this] obtain ws where ws:
    "st' = ?s\<lparr>events := events ?s @ ws\<rparr>"
    "\<forall>ev\<in>set ws. \<exists>e i. ev = Console Warn ''Error in OnStart:'' (Some e) i"
    "\<forall>e i. (Some e, i) \<in> set ps \<longrightarrow> Console Warn ''Error in OnStart:'' (Some e) i \<in> set ws"
    by blast
  from ws(1) have "st' = st\<lparr>events := events st @ (?w # ws)\<rparr>"
    by (simp add: DebugLog_def observe_def)
  moreover from ws(2) have "\<forall>ev\<in>set (?w # ws). \<exists>e i. ev = Console Warn ''Error in OnStart:'' (Some e) i"
    by simp
  moreover from ws(3) have "\<forall>e' i. (Some e', i) \<in> set ((Some e, inst) # ps) \<longrightarrow>
      Console Warn ''Error in OnStart:'' (Some e') i \<in> set (?w # ws)"
    by auto
  ultimately show ?case by blast
qed

lemma startPhase_run:
  assumes "startPhase env st cs = (r, st')"
  shows "r = Inr () \<and>
     (\<exists>ws. st' = st\<lparr>events := events st @ map StartHook
              [c \<leftarrow> cs. onStartMethod env c \<noteq> None \<and> controllerInstances st c \<noteq> None] @ ws\<rparr> \<and>
       (\<forall>ev\<in>set ws. \<exists>e i. ev = Console Warn ''Error in OnStart:'' (Some e) i) \<and>
       (\<forall>pre c post.
          [c \<leftarrow> cs. onStartMethod env c \<noteq> None \<and> controllerInstances st c \<noteq> None] = pre @ c # post \<longrightarrow>
          (\<exists>h i. onStartMethod env c = Some h \<and> controllerInstances st c = Some i \<and>
             (\<forall>x. h i (st\<lparr>events := events st @ map StartHook pre @ [StartHook c]\<rparr>) = Some x \<longrightarrow>
                Console Warn ''Error in OnStart:'' (Some (Thrown x)) (Some i) \<in> set ws))))"
proof -
  let ?hs = "[c \<leftarrow> cs. onStartMethod env c \<noteq> None \<and> controllerInstances st c \<noteq> None]"
  obtain ps s1 where 1: "startHooks env st cs [] = (ps, s1)" by (cases "startHooks env st cs []")
  obtain rs s2 where 2: "catchAll s1 ps = (rs, s2)" by (cases "catchAll s1 ps")
  from assms 1 2 have r: "r = Promise_all rs" "st' = s2" by (simp_all add: startPhase_def)
  from catchAll_fulfilled[OF 2] have "Promise_all rs = Inr ()" by (rule Promise_all_fulfilled)
  with r have r': "r = Inr ()" by simp
  from startHooks_run[OF 1] have s1: "s1 = st\<lparr>events := events st @ map StartHook ?hs\<rparr>"
    and promises: "\<And>pre c post. ?hs = pre @ c # post \<Longrightarrow>
        (\<exists>h i. onStartMethod env c = Some h \<and> controllerInstances st c = Some i \<and>
           (map_option Thrown (h i (st\<lparr>events := events st @ map StartHook pre @ [StartHook c]\<rparr>)),
            Some i) \<in> set ps)"
    by blast+
  from catchAll_run[OF 2] obtain ws where ws: "s2 = s1\<lparr>events := events s1 @ ws\<rparr>"
    "\<forall>ev\<in>set ws. \<exists>e i. ev = Console Warn ''Error in OnStart:'' (Some e) i"
    "\<forall>e i. (Some e, i) \<in> set ps \<longrightarrow> Console Warn ''Error in OnStart:'' (Some e) i \<in> set ws"
    by blast
  have a: "st' = st\<lparr>events := events st @ map StartHook ?hs @ ws\<rparr>" using r(2) ws(1) s1 by simp
  have b: "\<forall>pre c post. ?hs = pre @ c # post \<longrightarrow>
          (\<exists>h i. onStartMethod env c = Some h \<and> controllerInstances st c = Some i \<and>
             (\<forall>x. h i (st\<lparr>events := events st @ map StartHook pre @ [StartHook c]\<rparr>) = Some x \<longrightarrow>
                Console Warn ''Error in OnStart:'' (Some (Thrown x)) (Some i) \<in> set ws))"
  proof (intro allI impI)
    fix pre c post assume "?hs = pre @ c # post"
    from promises[OF this] obtain h i where hi: "onStartMethod env c = Some h"
      "controllerInstances st c = Some i"
      "(map_option Thrown (h i (st\<lparr>events := events st @ map StartHook pre @ [StartHook c]\<rparr>)),
        Some i) \<in> set ps"
      by blast
    have "\<forall>x. h i (st\<lparr>events := events st @ map StartHook pre @ [StartHook c]\<rparr>) = Some x \<longrightarrow>
                Console Warn ''Error in OnStart:'' (Some (Thrown x)) (Some i) \<in> set ws"
    proof (intro allI impI)
      fix x assume "h i (st\<lparr>events := events st @ map StartHook pre @ [StartHook c]\<rparr>) = Some x"
      with hi(3) have "(Some (Thrown x), Some i) \<in> set ps" by simp
      with ws(3) show "Console Warn ''Error in OnStart:'' (Some (Thrown x)) (Some i) \<in> set ws"
        by blast
    qed
    with hi(1,2) show "\<exists>h i. onStartMethod env c = Some h \<and> controllerInstances st c = Some i \<and>
             (\<forall>x. h i (st\<lparr>events := events st @ map StartHook pre @ [StartHook c]\<rparr>) = Some x \<longrightarrow>
                Console Warn ''Error in OnStart:'' (Some (Thrown x)) (Some i) \<in> set ws)"
      by blast
  qed
  from r' a ws(2) b show ?thesis by blast
qed


lemma startCalls_empty: "startCalls tr = [] \<Longrightarrow> StartHook c \<notin> set tr"
  by (induction tr rule: startCalls.induct) auto

lemma startCalls_map: "startCalls (map StartHook cs) = cs"
  by (induction cs) simp_all

lemma warnings_only:
  assumes "\<forall>ev\<in>set ws. \<exists>e i. ev = Console Warn ''Error in OnStart:'' (Some e) i"
  shows "startCalls ws = [] \<and> constructed ws = [] \<and> initCalls ws = [] \<and> stores ws = []"
  using assms by (induction ws) auto

lemma split_longer:
  assumes "xs @ ys = b @ z" "length xs \<le> length b"
  shows "\<exists>b'. b = xs @ b' \<and> ys = b' @ z"
proof -
  from assms(1) obtain us where
    "(xs = b @ us \<and> us @ ys = z) \<or> (xs @ us = b \<and> ys = us @ z)"
    by (auto simp: append_eq_append_conv2)
  then show ?thesis
  proof
    assume l: "xs = b @ us \<and> us @ ys = z"
    with assms(2) have "us = []" by simp
    with l show ?thesis by simp
  next
    assume "xs @ us = b \<and> ys = us @ z"
    then show ?thesis by blast
  qed
qed

text \<open>A run that reaches the start phase, taken apart.\<close>

lemma Start_completed:
  assumes "Start env st = Some (r, st')"
    and "registerAll env (Suc (length (controllerRegistry st))) (starting st) (sortedControllers st)
           = Some (Inr u, st2)"
  shows "r = Inr ()"
    and "\<exists>quietly ws.
       events st2 = events st @ quietly \<and> startCalls quietly = [] \<and>
       st' = st2\<lparr>events := events st2 @
                 map StartHook [c \<leftarrow> sortedControllers st. onStartMethod env c \<noteq> None] @ ws\<rparr> \<and>
       (\<forall>ev\<in>set ws. \<exists>e i. ev = Console Warn ''Error in OnStart:'' (Some e) i) \<and>
       (\<forall>pre c post.
          [c \<leftarrow> sortedControllers st. onStartMethod env c \<noteq> None] = pre @ c # post \<longrightarrow>
          (\<exists>h i. onStartMethod env c = Some h \<and> controllerInstances st2 c = Some i \<and>
             (\<forall>x. h i (st2\<lparr>events := events st2 @ map StartHook pre @ [StartHook c]\<rparr>) = Some x \<longrightarrow>
                Console Warn ''Error in OnStart:'' (Some (Thrown x)) (Some i) \<in> set ws)))"
    and "\<forall>c\<in>set (registered st). controllerInstances st2 c \<noteq> None"
proof -
  from assms(1) have phase: "startPhase env st2 (sortedControllers st) = (r, st')"
    by (cases rule: Start_cases) (use assms(2) in simp_all)
  have all: "\<forall>c\<in>set (sortedControllers st). controllerInstances st2 c \<noteq> None"
    by (rule registerAll_Inr[OF assms(2)])
  then show "\<forall>c\<in>set (registered st). controllerInstances st2 c \<noteq> None"
    by (simp add: sortedControllers_def)
  from all have hs: "[c \<leftarrow> sortedControllers st. onStartMethod env c \<noteq> None \<and> controllerInstances st2 c \<noteq> None]
      = [c \<leftarrow> sortedControllers st. onStartMethod env c \<noteq> None]"
    by (intro filter_cong) auto
  note run = startPhase_run[OF phase, unfolded hs]
  from run show "r = Inr ()" by blast
  obtain w where w: "events (starting st) = events st @ w" "startCalls w = []"
    using starting_events by blast
  from registerAll_reported[OF assms(2)] obtain tr where tr:
    "events st2 = events (starting st) @ tr" "startCalls tr = []"
    unfolding reported_def by blast
  have "events st2 = events st @ (w @ tr)" "startCalls (w @ tr) = []"
    using w tr by (simp_all add: startCalls_append)
  with run show "\<exists>quietly ws.
       events st2 = events st @ quietly \<and> startCalls quietly = [] \<and>
       st' = st2\<lparr>events := events st2 @
                 map StartHook [c \<leftarrow> sortedControllers st. onStartMethod env c \<noteq> None] @ ws\<rparr> \<and>
       (\<forall>ev\<in>set ws. \<exists>e i. ev = Console Warn ''Error in OnStart:'' (Some e) i) \<and>
       (\<forall>pre c post.
          [c \<leftarrow> sortedControllers st. onStartMethod env c \<noteq> None] = pre @ c # post \<longrightarrow>
          (\<exists>h i. onStartMethod env c = Some h \<and> controllerInstances st2 c = Some i \<and>
             (\<forall>x. h i (st2\<lparr>events := events st2 @ map StartHook pre @ [StartHook c]\<rparr>) = Some x \<longrightarrow>
                Console Warn ''Error in OnStart:'' (Some (Thrown x)) (Some i) \<in> set ws)))"
    by blast
qed

lemma Start_halted_no_hooks:
  assumes "registerAll env (Suc (length (controllerRegistry st))) (starting st) (sortedControllers st)
           = Some (Inl e, st')"
  shows "startCalls (newEvents st st') = []"
proof -
  obtain w where w: "events (starting st) = events st @ w" "startCalls w = []"
    using starting_events by blast
  from registerAll_reported[OF assms] obtain tr where tr:
    "events st' = events (starting st) @ tr" "startCalls tr = []"
    unfolding reported_def by blast
  from w tr have "newEvents st st' = w @ tr" by (simp add: newEvents_append)
  with w tr show ?thesis by (simp add: startCalls_append)
qed



lemma constructed_map_StartHook:
  "constructed (map StartHook cs) = []" "initCalls (map StartHook cs) = []"
  "stores (map StartHook cs) = []"
  by (induction cs) simp_all



subsection \<open>Declarations, and classes without dependencies\<close>

lemma run_append: "run env (xs @ ys) st = run env ys (run env xs st)"
proof (induction xs arbitrary: st)
  case Nil
  then show ?case by simp
next
  case (Cons call xs)
  show ?case
  proof (cases call)
    case (Declare opts c)
    with Cons show ?thesis by simp
  next
    case RunLifecycle
    obtain r s1 where "Start env st = Some (r, s1)" using Start_total by blast
    with Cons RunLifecycle show ?thesis by simp
  qed
qed

lemma run_declarations:
  assumes "distinct (map fst ds)"
  shows "controllerRegistry (run env (map declareCall ds) initial) = ds \<and>
         loadOrderOf (run env (map declareCall ds) initial) = hint ds \<and>
         controllerInstances (run env (map declareCall ds) initial) = Map.empty \<and>
         registeringControllers (run env (map declareCall ds) initial) = {} \<and>
         events (run env (map declareCall ds) initial) = []"
  using assms
proof (induction ds rule: rev_induct)
  case Nil
  show ?case by (simp add: initial_def loadOrderOf_def hint_def fun_eq_iff)
next
  case (snoc d ds)
  obtain c opts where d: "d = (c, opts)" by (cases d)
  let ?st = "run env (map declareCall ds) initial"
  from snoc have ih: "controllerRegistry ?st = ds" "loadOrderOf ?st = hint ds"
    "controllerInstances ?st = Map.empty" "registeringControllers ?st = {}" "events ?st = []"
    by simp_all
  from snoc.prems d have fresh: "c \<notin> fst ` set ds" by simp
  then have new: "\<not> registryHas ?st c" by (simp add: registryHas_def registered_def ih(1))
  have step: "run env (map declareCall (ds @ [d])) initial = snd (Controller opts c ?st)"
    by (simp add: run_append d)
  have "loadOrderOf (snd (Controller opts c ?st)) x = hint (ds @ [d]) x" for x
  proof (cases "x = c")
    case True
    from fresh have "map_of ds c = None" by (simp add: map_of_eq_None_iff)
    with True show ?thesis
      by (simp add: loadOrderOf_def Controller_fields[OF new] hint_def d map_add_def)
  next
    case False
    have "loadOrderOf (snd (Controller opts c ?st)) x = loadOrderOf ?st x"
      using False by (simp add: loadOrderOf_def Controller_fields[OF new])
    also have "\<dots> = hint ds x" by (simp add: ih(2))
    also have "\<dots> = hint (ds @ [d]) x"
      using False by (simp add: hint_def d map_add_def split: option.splits)
    finally show ?thesis .
  qed
  then have "loadOrderOf (snd (Controller opts c ?st)) = hint (ds @ [d])" by (rule ext)
  with ih show ?case unfolding step by (simp add: Controller_fields[OF new] d)
qed

lemma ascendingLoadOrder_sort_key: "ascendingLoadOrder key xs (sort_key key xs)"
  by (simp add: ascendingLoadOrder_def sort_key_stable)

lemma registerController_independent:
  assumes "dependenciesOf env c = []" "controllerInstances st c = None"
    "c \<notin> registeringControllers st"
  shows "registerController env (Suc n) st c = Some (createInstance env (mark c st) c [])"
  using assms by simp

lemma registerAll_independent:
  assumes "\<forall>c\<in>set cs. dependenciesOf env c = []" "distinct cs"
    "\<forall>c\<in>set cs. controllerInstances st c = None \<and> c \<notin> registeringControllers st"
    "registerAll env (Suc n) st cs = Some (r, st')"
  shows "\<exists>tr k. events st' = events st @ tr \<and> constructed tr = take k cs \<and>
           ((\<exists>u. r = Inr u) \<longrightarrow> constructed tr = cs)"
  using assms
proof (induction cs arbitrary: st)
  case Nil
  then have "events st' = events st @ [] \<and> constructed ([] :: ('a, 'b) event list) = take 0 [] \<and>
      ((\<exists>u. r = Inr u) \<longrightarrow> constructed ([] :: ('a, 'b) event list) = [])"
    by simp
  then show ?case by blast
next
  case (Cons c cs)
  from Cons.prems have c: "dependenciesOf env c = []" "controllerInstances st c = None"
    "c \<notin> registeringControllers st" by simp_all
  obtain y s1 where y: "createInstance env (mark c st) c [] = (y, s1)"
    by (cases "createInstance env (mark c st) c []")
  with registerController_independent[OF c, of n]
  have reg: "registerController env (Suc n) st c = Some (y, s1)" by simp
  from y show ?case
  proof (cases rule: createInstance_cases)
    case (ok tr)
    with reg Cons.prems(4) have rest: "registerAll env (Suc n) s1 cs = Some (r, st')" by simp
    have clean: "\<forall>d\<in>set cs. controllerInstances s1 d = None \<and> d \<notin> registeringControllers s1"
      using Cons.prems(2,3) ok(2,3) by auto
    have "\<forall>c\<in>set cs. dependenciesOf env c = []" "distinct cs" using Cons.prems(1,2) by simp_all
    from Cons.IH[OF this clean rest] obtain tr2 k where tr2:
      "events st' = events s1 @ tr2" "constructed tr2 = take k cs"
      "(\<exists>u. r = Inr u) \<longrightarrow> constructed tr2 = cs" by blast
    let ?tr = "(Construct c # tr @ [Stored c]) @ tr2"
    have "constructed (Construct c # tr @ [Stored c]) = [c]" using ok(5) by auto
    then have "constructed ?tr = c # constructed tr2" by (simp add: constructed_append)
    with tr2 have "events st' = events st @ ?tr \<and> constructed ?tr = take (Suc k) (c # cs) \<and>
        ((\<exists>u. r = Inr u) \<longrightarrow> constructed ?tr = c # cs)"
      using ok(4) by simp
    then show ?thesis by blast
  next
    case (fail e tr msg)
    with reg Cons.prems(4) have r: "r = Inl (Thrown e)" "st' = s1" by simp_all
    let ?tr = "tr @ [Console Err msg (Some (Thrown e)) None]"
    have "constructed ?tr = [c]" using fail(5) by auto
    with r fail(4) have "events st' = events st @ ?tr \<and> constructed ?tr = take (Suc 0) (c # cs) \<and>
        ((\<exists>u. r = Inr u) \<longrightarrow> constructed ?tr = c # cs)"
      by simp
    then show ?thesis by blast
  qed
qed


section \<open>The claims\<close>

text \<open>
  Claim C6. \<open>Dependency\<close> fails with the error "Use Dependency after AppLife.Start()" as
  long as \<open>started\<close> is not set; once it is set, it fails with "Controller not registered
  or not loaded yet" for a class without an entry in \<open>controllerInstances\<close> and returns
  the stored instance otherwise. In each case the state it leaves is the state it was
  given: nothing is constructed, no table changes. After a sequence of calls of the
  public interface, \<open>started\<close> is set exactly when \<open>AppLife.Start\<close> has been called.
\<close>

theorem Dependency_lookup:
  "(\<not> started st \<longrightarrow>
      Dependency st c = (Inl (AppLifeError ''Use Dependency after AppLife.Start()''), st)) \<and>
   (started st \<and> controllerInstances st c = None \<longrightarrow>
      Dependency st c = (Inl (AppLifeError ''Controller not registered or not loaded yet''), st)) \<and>
   (\<forall>i. started st \<and> controllerInstances st c = Some i \<longrightarrow> Dependency st c = (Inr i, st)) \<and>
   (started (run env calls initial) \<longleftrightarrow> RunLifecycle \<in> set calls)"
  by (simp add: Dependency_def run_started initial_def)

theorem Dependency_lookup_witness:
  "fst (Dependency (run (exampleClasses secondNeedsFirst [] [] []) twoDeclared initial) 1)
     = Inl (AppLifeError ''Use Dependency after AppLife.Start()'') \<and>
   fst (Dependency (run (exampleClasses secondNeedsFirst [] [] []) (twoDeclared @ [RunLifecycle]) initial) 3)
     = Inl (AppLifeError ''Controller not registered or not loaded yet'') \<and>
   fst (Dependency (run (exampleClasses secondNeedsFirst [] [] []) (twoDeclared @ [RunLifecycle]) initial) 2)
     = Inr (Instance 2 [Instance 1 []])"
proof -
  let ?env = "exampleClasses secondNeedsFirst [] [] []"
  let ?s = "run ?env (twoDeclared @ [RunLifecycle]) initial"
  have 1: "\<not> started (run ?env twoDeclared initial)" by code_simp
  have 2: "started ?s" by code_simp
  have 3: "controllerInstances ?s 3 = None" "controllerInstances ?s 2 = Some (Instance 2 [Instance 1 []])"
    by code_simp+
  from 1 Dependency_lookup[of "run ?env twoDeclared initial" 1 ?env twoDeclared]
    2 3 Dependency_lookup[of ?s 3 ?env twoDeclared] Dependency_lookup[of ?s 2 ?env twoDeclared]
  show ?thesis by simp
qed

text \<open>
  Claim C8, as amended. A second declaration of a class leaves the state as it is, so the
  first registration, with its load order, is kept; but the decorator does not stay
  silent, it throws the error "Controller already registered".
\<close>

theorem Controller_twice:
  assumes "\<not> registryHas st c" and "st1 = snd (Controller first c st)"
  shows "Controller second c st1 = (Inl (AppLifeError ''Controller already registered''), st1) \<and>
     map_of (controllerRegistry st1) c = Some first \<and>
     loadOrderOf st1 c = (case loadOrder first of None \<Rightarrow> 0 | Some n \<Rightarrow> n)"
proof -
  from assms(1) have "map_of (controllerRegistry st) c = None"
    by (simp add: registryHas_def registered_def map_of_eq_None_iff)
  with assms show ?thesis
    by (simp add: Controller_def registryHas_def registered_def loadOrderOf_def map_add_Some_iff)
qed

theorem Controller_twice_witness:
  "Controller \<lparr>loadOrder = Some 7\<rparr> (1::nat)
       (snd (Controller \<lparr>loadOrder = None\<rparr> 1 (initial :: (nat, string) state)))
     = (Inl (AppLifeError ''Controller already registered''),
        snd (Controller \<lparr>loadOrder = None\<rparr> 1 initial)) \<and>
   loadOrderOf (snd (Controller \<lparr>loadOrder = None\<rparr> (1::nat) (initial :: (nat, string) state))) 1 = 0"
  using Controller_twice[of "initial :: (nat, string) state" 1 _ "\<lparr>loadOrder = None\<rparr>" "\<lparr>loadOrder = Some 7\<rparr>"]
  by (simp add: registryHas_def registered_def initial_def)

text \<open>
  The claim as stated says that no error is raised by the second declaration. Declaring
  class 1 twice does raise one.
\<close>

theorem Controller_twice_raises:
  "fst (Controller \<lparr>loadOrder = Some 7\<rparr> (1::nat)
       (snd (Controller \<lparr>loadOrder = None\<rparr> 1 (initial :: (nat, string) state))))
     \<noteq> Inr ()"
  by (simp add: Controller_def registryHas_def registered_def initial_def)




text \<open>
  Claim C2, as amended. When a registered class is on a self-cycle or a mutual cycle,
  \<open>AppLife.Start\<close> fails, and no class on such a cycle ever has an instance in
  \<open>controllerInstances\<close>, in any state a run reaches. The error is the one of the cyclic
  dependency when no constructor or init hook throws and every dependency of a
  registered class is registered.
\<close>

theorem cycle_fails:
  assumes "registryHas (run env calls initial) a" and "onCycle env a"
  shows "(\<exists>e st'. Start env (run env calls initial) = Some (Inl e, st') \<and>
            (neverThrows env \<and> dependenciesDeclared env (run env calls initial)
               \<longrightarrow> e = AppLifeError ''Cyclic dependency detected'')) \<and>
         (\<forall>c later. onCycle env c \<longrightarrow> controllerInstances (run env later initial) c = None)"
proof -
  let ?st = "run env calls initial"
  obtain r st' where s: "Start env ?st = Some (r, st')" using Start_total by blast
  have "\<exists>e. r = Inl e"
  proof (cases r)
    case (Inr u)
    with Start_Inr_all[of env ?st u st'] s assms(1)
    have "controllerInstances st' a \<noteq> None" by (simp add: registryHas_def)
    moreover have "controllerInstances st' a = None"
      using Start_reaches(2)[OF s] assms(2) by (rule sound_no_cycle)
    ultimately show ?thesis by simp
  qed simp
  then obtain e where e: "r = Inl e" ..
  with s Start_error_cyclic[of env ?st e st'] have first:
    "\<exists>e st'. Start env ?st = Some (Inl e, st') \<and>
       (neverThrows env \<and> dependenciesDeclared env ?st \<longrightarrow> e = AppLifeError ''Cyclic dependency detected'')"
    by blast
  have "\<forall>c later. onCycle env c \<longrightarrow> controllerInstances (run env later initial) c = None"
    by (simp add: sound_no_cycle[OF run_reaches(2)])
  with first show ?thesis ..
qed

theorem cycle_fails_witness:
  "registryHas (run (exampleClasses mutualCycle [] [] []) twoDeclared initial) 1 \<and>
   onCycle (exampleClasses mutualCycle [] [] []) 1 \<and>
   onCycle (exampleClasses mutualCycle [] [] []) 2 \<and>
   neverThrows (exampleClasses mutualCycle [] [] []) \<and>
   dependenciesDeclared (exampleClasses mutualCycle [] [] []) (run (exampleClasses mutualCycle [] [] []) twoDeclared initial) \<and>
   map_option fst (Start (exampleClasses mutualCycle [] [] []) (run (exampleClasses mutualCycle [] [] []) twoDeclared initial))
     = Some (Inl (AppLifeError ''Cyclic dependency detected'')) \<and>
   controllerInstances (run (exampleClasses mutualCycle [] [] []) (twoDeclared @ [RunLifecycle]) initial) 1 = None \<and>
   controllerInstances (run (exampleClasses mutualCycle [] [] []) (twoDeclared @ [RunLifecycle]) initial) 2 = None"
proof -
  let ?env = "exampleClasses mutualCycle [] [] []"
  let ?st = "run ?env twoDeclared initial"
  have reg: "registryHas ?st 1"
    by (simp add: registryHas_def registered_def twoDeclared_def Controller_def initial_def)
  have cyc: "onCycle ?env 1" "onCycle ?env 2"
    by (simp_all add: onCycle_def dependenciesOf_def exampleClasses_def mutualCycle_def)
  have nt: "neverThrows ?env" by (simp add: neverThrows_def exampleClasses_def)
  have dd: "dependenciesDeclared ?env ?st"
    by (simp add: dependenciesDeclared_def registryHas_def registered_def twoDeclared_def
        Controller_def initial_def dependenciesOf_def exampleClasses_def mutualCycle_def)
  note applied = cycle_fails[OF reg cyc(1)]
  from applied obtain e st' where s: "Start ?env ?st = Some (Inl e, st')"
    and e: "neverThrows ?env \<and> dependenciesDeclared ?env ?st
      \<longrightarrow> e = AppLifeError ''Cyclic dependency detected''"
    by blast
  from s e nt dd
  have 1: "map_option fst (Start ?env ?st) = Some (Inl (AppLifeError ''Cyclic dependency detected''))"
    by simp
  from applied have never: "\<And>c later. onCycle ?env c \<Longrightarrow> controllerInstances (run ?env later initial) c = None"
    by blast
  from never[OF cyc(1)] never[OF cyc(2)] 1 reg cyc nt dd show ?thesis by simp
qed


text \<open>
  The claim as stated promises the error of the cyclic dependency for every graph with a
  cycle. Class A below depends on an undeclared class and then on itself: the run fails
  with the error of the unregistered dependency.
\<close>

theorem cycle_other_error:
  "onCycle (exampleClasses missingThenSelf [] [] []) 1 \<and>
   map_option fst (Start (exampleClasses missingThenSelf [] [] [])
       (run (exampleClasses missingThenSelf [] [] []) oneDeclared initial))
     = Some (Inl (AppLifeError ''Dependency X not registered via @Controller''))"
proof
  show "onCycle (exampleClasses missingThenSelf [] [] []) 1"
    by (simp add: onCycle_def dependenciesOf_def exampleClasses_def missingThenSelf_def)
  show "map_option fst (Start (exampleClasses missingThenSelf [] [] [])
       (run (exampleClasses missingThenSelf [] [] []) oneDeclared initial))
     = Some (Inl (AppLifeError ''Dependency X not registered via @Controller''))"
    by code_simp
qed





text \<open>
  Claim C10. When \<open>registerController\<close> fails for a class, whatever the cause, the class
  is left in \<open>registeringControllers\<close> without an instance, and it stays so through
  everything that follows (registrations of any class, declarations, lifecycle runs),
  since the mark is deleted only at line 130, after a successful store. Every later call
  of \<open>registerController\<close> for the class therefore fails with the error "Cyclic
  dependency detected" and changes nothing.
\<close>

theorem failed_stays_in_flight:
  assumes "registerController env n st x = Some (Inl e, st1)" and "later env st1 s"
  shows "x \<in> registeringControllers s \<and> controllerInstances s x = None \<and>
         registerController env (Suc m) s x
           = Some (Inl (AppLifeError ''Cyclic dependency detected''), s)"
proof -
  from register_fails_inFlight[OF assms(1)] assms(2) have "inFlight s x"
    by (rule later_inFlight[rotated])
  then show ?thesis by (simp add: inFlight_def)
qed

theorem failed_stays_in_flight_witness:
  "\<exists>e st1 r s.
     registerController (exampleClasses noDependencies [1] [] []) (Suc 0)
       (run (exampleClasses noDependencies [1] [] []) oneDeclared initial) 1 = Some (Inl e, st1) \<and>
     e = Thrown ''constructor failed'' \<and>
     Start (exampleClasses noDependencies [1] [] []) st1 = Some (r, s) \<and>
     1 \<in> registeringControllers s \<and>
     registerController (exampleClasses noDependencies [1] [] []) (Suc 0) s 1
       = Some (Inl (AppLifeError ''Cyclic dependency detected''), s)"
proof -
  let ?env = "exampleClasses noDependencies [1] [] []"
  let ?st = "run ?env oneDeclared initial"
  have "map_option fst (registerController ?env (Suc 0) ?st 1) = Some (Inl (Thrown ''constructor failed''))"
    by code_simp
  then obtain st1 where 1: "registerController ?env (Suc 0) ?st 1 = Some (Inl (Thrown ''constructor failed''), st1)"
    by (cases "registerController ?env (Suc 0) ?st 1") auto
  obtain r s where 2: "Start ?env st1 = Some (r, s)" using Start_total by blast
  have "later ?env st1 s" by (rule later.starts[OF later.here 2])
  from failed_stays_in_flight[OF 1 this, of 0] 1 2 show ?thesis by blast
qed



text \<open>
  Claim C4. \<open>AppLife.Start\<close> always returns. Take a run in which a start hook is called.
  Then the run completes normally; the start hook of every registered class that has one
  is called, once, in the sorted order; \<open>Dependency\<close> returns the instance of every
  registered class afterwards, also of a class whose start hook threw; and whenever the
  start hook of a class throws, in the state in which it is called, the warning "Error in
  OnStart:" with what was thrown and the instance of the class is written after the call.
\<close>

theorem start_failures_are_warnings:
  "(\<exists>r st'. Start env st = Some (r, st')) \<and>
   (\<forall>r st' c. Start env st = Some (r, st') \<and> StartHook c \<in> set (newEvents st st') \<longrightarrow>
        r = Inr () \<and>
        startCalls (newEvents st st') = [d \<leftarrow> sortedControllers st. onStartMethod env d \<noteq> None] \<and>
        (\<forall>d\<in>set (registered st). \<exists>i. Dependency st' d = (Inr i, st')) \<and>
        (\<forall>before after d h i x.
           events st' = before @ StartHook d # after \<and> length (events st) \<le> length before \<and>
           onStartMethod env d = Some h \<and> controllerInstances st' d = Some i \<and>
           h i (st'\<lparr>events := before @ [StartHook d]\<rparr>) = Some x
           \<longrightarrow> Console Warn ''Error in OnStart:'' (Some (Thrown x)) (Some i) \<in> set after))"
proof (rule conjI)
  show "\<exists>r st'. Start env st = Some (r, st')" by (rule Start_total)
next
  show "\<forall>r st' c. Start env st = Some (r, st') \<and> StartHook c \<in> set (newEvents st st') \<longrightarrow>
        r = Inr () \<and>
        startCalls (newEvents st st') = [d \<leftarrow> sortedControllers st. onStartMethod env d \<noteq> None] \<and>
        (\<forall>d\<in>set (registered st). \<exists>i. Dependency st' d = (Inr i, st')) \<and>
        (\<forall>before after d h i x.
           events st' = before @ StartHook d # after \<and> length (events st) \<le> length before \<and>
           onStartMethod env d = Some h \<and> controllerInstances st' d = Some i \<and>
           h i (st'\<lparr>events := before @ [StartHook d]\<rparr>) = Some x
           \<longrightarrow> Console Warn ''Error in OnStart:'' (Some (Thrown x)) (Some i) \<in> set after)"
  proof (intro allI impI)
  fix r st' c
  assume "Start env st = Some (r, st') \<and> StartHook c \<in> set (newEvents st st')"
  then have s: "Start env st = Some (r, st')" and called: "StartHook c \<in> set (newEvents st st')"
    by simp_all
  from s obtain u st2 where reg:
    "registerAll env (Suc (length (controllerRegistry st))) (starting st) (sortedControllers st)
       = Some (Inr u, st2)"
  proof (cases rule: Start_cases)
    case (halted e)
    from Start_halted_no_hooks[OF halted(2)] called show ?thesis
      by (simp add: startCalls_empty)
  next
    case (completed u st2)
    with that show ?thesis by blast
  qed
  let ?hs = "[d \<leftarrow> sortedControllers st. onStartMethod env d \<noteq> None]"
  from Start_completed[OF s reg] obtain quietly ws where r: "r = Inr ()"
    and q: "events st2 = events st @ quietly" "startCalls quietly = []"
    and st': "st' = st2\<lparr>events := events st2 @ map StartHook ?hs @ ws\<rparr>"
    and ws: "\<forall>ev\<in>set ws. \<exists>e i. ev = Console Warn ''Error in OnStart:'' (Some e) i"
    and promises: "\<And>pre c post. ?hs = pre @ c # post \<Longrightarrow>
        (\<exists>h i. onStartMethod env c = Some h \<and> controllerInstances st2 c = Some i \<and>
           (\<forall>x. h i (st2\<lparr>events := events st2 @ map StartHook pre @ [StartHook c]\<rparr>) = Some x \<longrightarrow>
              Console Warn ''Error in OnStart:'' (Some (Thrown x)) (Some i) \<in> set ws))"
    and stored: "\<forall>c\<in>set (registered st). controllerInstances st2 c \<noteq> None"
    by blast
  have ev': "events st' = events st @ quietly @ map StartHook ?hs @ ws" using st' q(1) by simp
  then have new: "newEvents st st' = quietly @ map StartHook ?hs @ ws"
    by (rule newEvents_append)
  have table: "controllerInstances st' = controllerInstances st2" using st' by simp
  have calls: "startCalls (newEvents st st') = ?hs"
    using new q(2) warnings_only[OF ws] by (simp add: startCalls_append startCalls_map)
  have lookup: "\<forall>d\<in>set (registered st). \<exists>i. Dependency st' d = (Inr i, st')"
    using stored table Start_started[OF s] by (auto simp: Dependency_def)
  have warned: "\<forall>before after d h i x.
         events st' = before @ StartHook d # after \<and> length (events st) \<le> length before \<and>
         onStartMethod env d = Some h \<and> controllerInstances st' d = Some i \<and>
         h i (st'\<lparr>events := before @ [StartHook d]\<rparr>) = Some x
         \<longrightarrow> Console Warn ''Error in OnStart:'' (Some (Thrown x)) (Some i) \<in> set after"
  proof (intro allI impI, elim conjE)
    fix before after d h i x
    assume split: "events st' = before @ StartHook d # after"
      and len: "length (events st) \<le> length before"
      and h: "onStartMethod env d = Some h" and i: "controllerInstances st' d = Some i"
      and x: "h i (st'\<lparr>events := before @ [StartHook d]\<rparr>) = Some x"
    from split ev' have "events st @ (quietly @ map StartHook ?hs @ ws) = before @ StartHook d # after"
      by simp
    from split_longer[OF this len] obtain b1 where b1: "before = events st @ b1"
      "quietly @ (map StartHook ?hs @ ws) = b1 @ StartHook d # after" by auto
    from split_after[OF b1(2) startCalls_empty[OF q(2)]] obtain b2 where b2: "b1 = quietly @ b2"
      "map StartHook ?hs @ ws = b2 @ StartHook d # after" by blast
    have "StartHook d \<notin> set ws" using warnings_only[OF ws] by (simp add: startCalls_empty)
    from split_before[OF b2(2) this] obtain a' where a': "after = a' @ ws"
      "map StartHook ?hs = b2 @ StartHook d # a'" by blast
    from a'(2) obtain pre post where pp: "?hs = pre @ d # post" "b2 = map StartHook pre"
      by (auto simp: map_eq_append_conv map_eq_Cons_conv)
    from promises[OF pp(1)] h i table
    have "\<forall>x. h i (st2\<lparr>events := events st2 @ map StartHook pre @ [StartHook d]\<rparr>) = Some x \<longrightarrow>
              Console Warn ''Error in OnStart:'' (Some (Thrown x)) (Some i) \<in> set ws"
      by auto
    moreover have "st'\<lparr>events := before @ [StartHook d]\<rparr>
        = st2\<lparr>events := events st2 @ map StartHook pre @ [StartHook d]\<rparr>"
      using st' b1(1) b2(1) pp(2) q(1) by simp
    ultimately have "Console Warn ''Error in OnStart:'' (Some (Thrown x)) (Some i) \<in> set ws"
      using x by simp
    with a'(1) show "Console Warn ''Error in OnStart:'' (Some (Thrown x)) (Some i) \<in> set after"
      by simp
  qed
  from r calls lookup warned show "r = Inr () \<and>
        startCalls (newEvents st st') = [d \<leftarrow> sortedControllers st. onStartMethod env d \<noteq> None] \<and>
        (\<forall>d\<in>set (registered st). \<exists>i. Dependency st' d = (Inr i, st')) \<and>
        (\<forall>before after d h i x.
           events st' = before @ StartHook d # after \<and> length (events st) \<le> length before \<and>
           onStartMethod env d = Some h \<and> controllerInstances st' d = Some i \<and>
           h i (st'\<lparr>events := before @ [StartHook d]\<rparr>) = Some x
           \<longrightarrow> Console Warn ''Error in OnStart:'' (Some (Thrown x)) (Some i) \<in> set after)"
    by blast
  qed
qed


theorem start_failures_are_warnings_witness:
  "map_option fst (Start (exampleClasses secondNeedsFirst [] [] [1])
       (run (exampleClasses secondNeedsFirst [] [] [1]) twoDeclared initial)) = Some (Inr ()) \<and>
   startCalls (newEvents (run (exampleClasses secondNeedsFirst [] [] [1]) twoDeclared initial)
       (run (exampleClasses secondNeedsFirst [] [] [1]) (twoDeclared @ [RunLifecycle]) initial)) = [2, 1] \<and>
   fst (Dependency (run (exampleClasses secondNeedsFirst [] [] [1]) (twoDeclared @ [RunLifecycle]) initial) 1)
     = Inr (Instance 1 []) \<and>
   events (run (exampleClasses secondNeedsFirst [] [] [1]) (twoDeclared @ [RunLifecycle]) initial)
     = [Construct 1, Init 1, Stored 1, Construct 2, Init 2, Stored 2, StartHook 2] @ StartHook 1 #
       [Console Warn ''Error in OnStart:'' (Some (Thrown ''start failed'')) (Some (Instance 1 []))]"
proof -
  let ?env = "exampleClasses secondNeedsFirst [] [] [1]"
  let ?st = "run ?env twoDeclared initial"
  let ?st' = "run ?env (twoDeclared @ [RunLifecycle]) initial"
  note applied = start_failures_are_warnings[of ?env ?st]
  from applied obtain r st' where s: "Start ?env ?st = Some (r, st')" by (elim conjE exE)
  have eq: "st' = ?st'" using run_snoc_Start[OF s] by simp
  have called: "StartHook 1 \<in> set (newEvents ?st ?st')" by code_simp
  have sorted: "[d \<leftarrow> sortedControllers ?st. onStartMethod ?env d \<noteq> None] = [2, 1]"
    by (simp add: sortedControllers_def registered_def loadOrderOf_def twoDeclared_def
        Controller_def initial_def registryHas_def exampleClasses_def)
  have reg: "1 \<in> set (registered ?st)"
    by (simp add: registered_def twoDeclared_def Controller_def initial_def registryHas_def)
  have table: "controllerInstances ?st' 1 = Some (Instance 1 [])" by code_simp
  have evs: "events ?st'
     = [Construct 1, Init 1, Stored 1, Construct 2, Init 2, Stored 2, StartHook 2] @ StartHook 1 #
       [Console Warn ''Error in OnStart:'' (Some (Thrown ''start failed'')) (Some (Instance 1 []))]"
    by code_simp
  from called eq have called': "StartHook 1 \<in> set (newEvents ?st st')" by simp
  note got = conjunct2[OF applied, rule_format, of r st' 1, OF conjI[OF s called']]
  from got eq have r: "r = Inr ()"
    and calls: "startCalls (newEvents ?st ?st') = [d \<leftarrow> sortedControllers ?st. onStartMethod ?env d \<noteq> None]"
    and lookup: "\<forall>d\<in>set (registered ?st). \<exists>i. Dependency ?st' d = (Inr i, ?st')"
    by simp_all
  from lookup reg obtain i where "Dependency ?st' 1 = (Inr i, ?st')" by blast
  with table have "fst (Dependency ?st' 1) = Inr (Instance 1 [])" by (simp add: Dependency_def split: if_splits)
  with s r calls sorted evs show ?thesis by simp
qed






text \<open>
  Claim C5. Declare classes, each once, none of which has a dependency, and call
  \<open>AppLife.Start\<close>. The classes are then constructed in ascending load order (0 for a
  declaration without one), classes of equal load order in the order of their
  declaration: all of them in that order when the run completes, and the classes up to
  the failing one when a constructor or an init hook throws.
\<close>

theorem load_order:
  assumes "distinct (map fst ds)" and "\<forall>c\<in>set (map fst ds). dependenciesOf env c = []"
  shows "\<exists>r st' xs. Start env (run env (map declareCall ds) initial) = Some (r, st') \<and>
           ascendingLoadOrder (hint ds) (map fst ds) xs \<and>
           (\<exists>k. constructed (events st') = take k xs) \<and>
           (r = Inr () \<longrightarrow> constructed (events st') = xs)"
proof -
  let ?st = "run env (map declareCall ds) initial"
  let ?xs = "sort_key (hint ds) (map fst ds)"
  from run_declarations[OF assms(1), of env] have st: "controllerRegistry ?st = ds"
    "loadOrderOf ?st = hint ds" "controllerInstances ?st = Map.empty"
    "registeringControllers ?st = {}" "events ?st = []"
    by simp_all
  have sorted: "sortedControllers ?st = ?xs" by (simp add: sortedControllers_def registered_def st)
  obtain w where w: "events (starting ?st) = events ?st @ w" "constructed w = []"
    using starting_events by blast
  have pre: "\<forall>c\<in>set ?xs. dependenciesOf env c = []" "distinct ?xs"
    "\<forall>c\<in>set ?xs. controllerInstances (starting ?st) c = None \<and>
        c \<notin> registeringControllers (starting ?st)"
    using assms by (simp_all add: starting_fields st)
  obtain r st' where s: "Start env ?st = Some (r, st')" using Start_total by blast
  have "(\<exists>k. constructed (events st') = take k ?xs) \<and> (r = Inr () \<longrightarrow> constructed (events st') = ?xs)"
    using s
  proof (cases rule: Start_cases)
    case (halted e)
    from registerAll_independent[OF pre halted(2)[unfolded sorted]] obtain tr k where
      "events st' = events (starting ?st) @ tr" "constructed tr = take k ?xs" by blast
    with w st(5) halted(1) show ?thesis by (auto simp: constructed_append)
  next
    case (completed u st2)
    from registerAll_independent[OF pre completed(1)[unfolded sorted]] obtain tr where tr:
      "events st2 = events (starting ?st) @ tr" "constructed tr = ?xs" by blast
    from Start_completed(2)[OF s completed(1)] obtain ws where
      ws: "st' = st2\<lparr>events := events st2 @
                 map StartHook [c \<leftarrow> sortedControllers ?st. onStartMethod env c \<noteq> None] @ ws\<rparr>"
        "\<forall>ev\<in>set ws. \<exists>e i. ev = Console Warn ''Error in OnStart:'' (Some e) i"
      by blast
    from ws(1) tr w st(5) warnings_only[OF ws(2)]
    have "constructed (events st') = ?xs"
      by (simp add: constructed_append constructed_map_StartHook)
    then have "constructed (events st') = take (length ?xs) ?xs \<and> constructed (events st') = ?xs"
      by simp
    then show ?thesis by blast
  qed
  with s ascendingLoadOrder_sort_key[of "hint ds" "map fst ds"] show ?thesis by blast
qed

theorem load_order_witness:
  "distinct (map fst threeHints) \<and>
   constructed (events (run (exampleClasses noDependencies [] [] [])
       (map declareCall threeHints @ [RunLifecycle]) initial)) = [2, 1, 3] \<and>
   ascendingLoadOrder (hint threeHints) (map fst threeHints) [2, 1, 3]"
proof -
  let ?env = "exampleClasses noDependencies [] [] []"
  have d: "distinct (map fst threeHints)" by (simp add: threeHints_def)
  have nd: "\<forall>c\<in>set (map fst threeHints). dependenciesOf ?env c = []"
    by (simp add: dependenciesOf_def exampleClasses_def noDependencies_def)
  from load_order[OF d nd] obtain r st' xs where
    s: "Start ?env (run ?env (map declareCall threeHints) initial) = Some (r, st')"
    and asc: "ascendingLoadOrder (hint threeHints) (map fst threeHints) xs"
    and ok: "r = Inr () \<longrightarrow> constructed (events st') = xs"
    by blast
  have e: "st' = run ?env (map declareCall threeHints @ [RunLifecycle]) initial"
    using run_snoc_Start[OF s] by simp
  have r: "map_option fst (Start ?env (run ?env (map declareCall threeHints) initial)) = Some (Inr ())"
    by code_simp
  have c: "constructed (events (run ?env (map declareCall threeHints @ [RunLifecycle]) initial)) = [2, 1, 3]"
    by code_simp
  from r s have "r = Inr ()" by simp
  with ok e c have "xs = [2, 1, 3]" by simp
  with asc d c show ?thesis by simp
qed

end
